theory Spec2Isabelle
  imports Main "HOL-Library.Char_ord" "HOL-Library.List_Lexorder" "HOL-Library.Product_Lexorder"
begin

section \<open>Python helpers\<close>

text \<open>Python's \<^verbatim>\<open>xs[i]\<close> with an integer index: a negative index counts from the end, and
  an index outside the list raises IndexError, which the model writes as \<open>None\<close>.\<close>

definition py_index :: "'a list \<Rightarrow> int \<Rightarrow> nat option" where
  "py_index xs i =
     (let n = int (length xs); j = (if i < 0 then n + i else i)
      in if 0 \<le> j \<and> j < n then Some (nat j) else None)"

text \<open>Python's \<^verbatim>\<open>str(i)\<close> for a non-negative integer: its decimal digits.\<close>

definition digit_char :: "nat \<Rightarrow> char" where
  "digit_char d = char_of (of_char (CHR ''0'') + d)"

fun str_nat :: "nat \<Rightarrow> string" where
  "str_nat n = (if n < 10 then [digit_char n] else str_nat (n div 10) @ [digit_char (n mod 10)])"

declare str_nat.simps [simp del]

section \<open>Bloom filter (bloom\_filter.py)\<close>

text \<open>The class \<^verbatim>\<open>BloomFilter\<close>: \<^verbatim>\<open>size\<close> and \<^verbatim>\<open>hash_count\<close> are Python integers, the bit
  array a list of integers. The digest \<^verbatim>\<open>int(hashlib.md5(s.encode()).hexdigest(), 16)\<close> belongs to
  the Python library; the model takes it as the parameter \<open>md5\<close>, a function from the
  hashed string to a natural number.\<close>

record bloom_filter =
  bf_size :: int
  bf_hash_count :: int
  bit_array :: "int list"

definition BloomFilter :: "int \<Rightarrow> int \<Rightarrow> bloom_filter" where
  "BloomFilter sz hc = \<lparr>bf_size = sz, bf_hash_count = hc, bit_array = replicate (nat sz) 0\<rparr>"

text \<open>\<^verbatim>\<open>_hashes\<close>: one index per \<^verbatim>\<open>i in range(hash_count)\<close>, the digest of \<^verbatim>\<open>item + str(i)\<close>
  modulo \<^verbatim>\<open>size\<close>. The modulo raises ZeroDivisionError when \<^verbatim>\<open>size\<close> is 0 and the range is
  not empty.\<close>

definition hashes :: "(string \<Rightarrow> nat) \<Rightarrow> bloom_filter \<Rightarrow> string \<Rightarrow> int list option" where
  "hashes md5 bf item =
     (if bf_size bf = 0 \<and> 0 < bf_hash_count bf then None
      else Some (map (\<lambda>i. int (md5 (item @ str_nat i)) mod bf_size bf)
                   [0..<nat (bf_hash_count bf)]))"

text \<open>The loop of \<^verbatim>\<open>add\<close>: \<^verbatim>\<open>self.bit_array[hash_index] = 1\<close> for each index.\<close>

fun set_bits :: "int list \<Rightarrow> int list \<Rightarrow> int list option" where
  "set_bits bits [] = Some bits"
| "set_bits bits (h # hs) =
     (case py_index bits h of
        None \<Rightarrow> None
      | Some j \<Rightarrow> set_bits (bits[j := 1]) hs)"

definition add :: "(string \<Rightarrow> nat) \<Rightarrow> bloom_filter \<Rightarrow> string \<Rightarrow> bloom_filter option" where
  "add md5 bf item =
     (case hashes md5 bf item of
        None \<Rightarrow> None
      | Some hs \<Rightarrow>
          (case set_bits (bit_array bf) hs of
             None \<Rightarrow> None
           | Some bits \<Rightarrow> Some (bf\<lparr>bit_array := bits\<rparr>)))"

text \<open>\<^verbatim>\<open>__contains__\<close>: \<^verbatim>\<open>all(self.bit_array[h] for h in self._hashes(item))\<close>; \<^verbatim>\<open>all\<close> stops at
  the first bit that is 0.\<close>

fun all_bits :: "int list \<Rightarrow> int list \<Rightarrow> bool option" where
  "all_bits bits [] = Some True"
| "all_bits bits (h # hs) =
     (case py_index bits h of
        None \<Rightarrow> None
      | Some j \<Rightarrow> if bits ! j \<noteq> 0 then all_bits bits hs else Some False)"

definition contains :: "(string \<Rightarrow> nat) \<Rightarrow> bloom_filter \<Rightarrow> string \<Rightarrow> bool option" where
  "contains md5 bf item =
     (case hashes md5 bf item of
        None \<Rightarrow> None
      | Some hs \<Rightarrow> all_bits (bit_array bf) hs)"

text \<open>A sequence of \<^verbatim>\<open>add\<close> calls, stopping at the first exception.\<close>

fun add_all :: "(string \<Rightarrow> nat) \<Rightarrow> bloom_filter \<Rightarrow> string list \<Rightarrow> bloom_filter option" where
  "add_all md5 bf [] = Some bf"
| "add_all md5 bf (x # xs) =
     (case add md5 bf x of None \<Rightarrow> None | Some bf' \<Rightarrow> add_all md5 bf' xs)"

section \<open>B-Tree (btree.py) and its write-ahead log (wal.py)\<close>

text \<open>Python's \<^verbatim>\<open>xs[i]\<close> for an index that is never negative, and the slice
  \<^verbatim>\<open>xs[a:b]\<close> for integer bounds (a negative bound counts from the end, and bounds are
  clamped to the list).\<close>

definition py_nth :: "'a list \<Rightarrow> nat \<Rightarrow> 'a option" where
  "py_nth xs i = (if i < length xs then Some (xs ! i) else None)"

definition py_bound :: "nat \<Rightarrow> int \<Rightarrow> nat" where
  "py_bound n a = (if a < 0 then nat (max 0 (int n + a)) else min (nat a) n)"

definition py_slice :: "'a list \<Rightarrow> int \<Rightarrow> int \<Rightarrow> 'a list" where
  "py_slice xs a b =
     (let lo = py_bound (length xs) a; hi = py_bound (length xs) b
      in take (hi - lo) (drop lo xs))"

text \<open>\<^verbatim>\<open>xs.insert(i, e)\<close>: the element goes before position \<open>i\<close>, or at the end when
  the list is shorter.\<close>

definition py_insert :: "'a list \<Rightarrow> nat \<Rightarrow> 'a \<Rightarrow> 'a list" where
  "py_insert xs i e = take i xs @ e # drop i xs"

text \<open>\<^verbatim>\<open>BTreeNode\<close>: the fields \<^verbatim>\<open>leaf\<close>, \<^verbatim>\<open>keys\<close>, \<^verbatim>\<open>values\<close> (here \<open>vals\<close>) and
  \<^verbatim>\<open>child\<close>. A B-tree is a tree without sharing, so a node owns its children and the
  in-place updates of the source are modelled by returning the updated node. Keys are
  compared with \<^verbatim>\<open><\<close>, \<^verbatim>\<open>>\<close> and \<^verbatim>\<open>==\<close>, a linear order; values are the stored values,
  never Python's \<^verbatim>\<open>None\<close>.\<close>

datatype ('k, 'v) node =
  Node (leaf: bool) (keys: "'k list") (vals: "'v list") (child: "('k, 'v) node list")

definition BTreeNode :: "bool \<Rightarrow> ('k, 'v) node" where
  "BTreeNode lf = Node lf [] [] []"

lemma size_child_nth: "i < length cs \<Longrightarrow> size (cs ! i) \<le> size_list size cs"
  by (metis nth_mem size_list_estimation' order_refl)

lemma size_child_sel: "i < length (child x) \<Longrightarrow> size (child x ! i) < size x"
  by (cases x) (simp add: size_child_nth le_imp_less_Suc trans_le_add2)

text \<open>The scan \<^verbatim>\<open>i = 0; while i < len(x.keys) and k > x.keys[i]: i += 1\<close> of \<^verbatim>\<open>search\<close>
  and \<^verbatim>\<open>_update\<close>.\<close>

definition scan_up :: "'k::linorder \<Rightarrow> 'k list \<Rightarrow> nat" where
  "scan_up k ks = length (takeWhile (\<lambda>x. k > x) ks)"

text \<open>The scan \<^verbatim>\<open>i = len(x.keys) - 1; while i >= 0 and k < x.keys[i]: i -= 1\<close> of
  \<^verbatim>\<open>insert_non_full\<close>; the result is \<open>i + 1\<close>, the number of keys left of the gap.\<close>

definition scan_down :: "'k::linorder \<Rightarrow> 'k list \<Rightarrow> nat" where
  "scan_down k ks = length (dropWhile (\<lambda>x. k < x) (rev ks))"

text \<open>\<^verbatim>\<open>search(k, x)\<close> below a node: the outer option is \<open>None\<close> for an IndexError, the
  inner one is Python's \<^verbatim>\<open>None\<close> for a key that is not found.\<close>

function search_node :: "('k::linorder, 'v) node \<Rightarrow> 'k \<Rightarrow> 'v option option" where
  "search_node x k =
     (let i = scan_up k (keys x) in
      if i < length (keys x) \<and> k = keys x ! i then
        (case py_nth (vals x) i of None \<Rightarrow> None | Some v \<Rightarrow> Some (Some v))
      else if leaf x then Some None
      else (case py_nth (child x) i of None \<Rightarrow> None | Some c \<Rightarrow> search_node c k))"
  by pat_completeness auto
termination
  by (relation "measure (\<lambda>(x, k). size x)")
     (auto simp: py_nth_def size_child_sel split: if_splits)

declare search_node.simps [simp del]

text \<open>\<^verbatim>\<open>_update(x, k, v)\<close>: the same walk, storing \<open>v\<close> where the key is found. The result is
  the updated node and the boolean the method returns.\<close>

function update_node :: "('k::linorder, 'v) node \<Rightarrow> 'k \<Rightarrow> 'v \<Rightarrow> (('k, 'v) node \<times> bool) option" where
  "update_node x k v =
     (let i = scan_up k (keys x) in
      if i < length (keys x) \<and> k = keys x ! i then
        (if i < length (vals x)
         then Some (Node (leaf x) (keys x) ((vals x)[i := v]) (child x), True)
         else None)
      else if leaf x then Some (x, False)
      else (case py_nth (child x) i of
              None \<Rightarrow> None
            | Some c \<Rightarrow>
                (case update_node c k v of
                   None \<Rightarrow> None
                 | Some (c', b) \<Rightarrow> Some (Node (leaf x) (keys x) (vals x) ((child x)[i := c']), b))))"
  by pat_completeness auto
termination
  by (relation "measure (\<lambda>(x, k, v). size x)")
     (auto simp: py_nth_def size_child_sel split: if_splits)

declare update_node.simps [simp del]

text \<open>\<^verbatim>\<open>_items(x)\<close>: the in-order traversal. For an inner node the loop reads
  \<^verbatim>\<open>x.child[i]\<close> and \<^verbatim>\<open>x.values[i]\<close> for every \<^verbatim>\<open>i < len(x.keys)\<close> and then
  \<^verbatim>\<open>x.child[len(x.keys)]\<close>; a missing child or value raises IndexError.\<close>

fun sequence_opt :: "'a option list \<Rightarrow> 'a list option" where
  "sequence_opt [] = Some []"
| "sequence_opt (None # xs) = None"
| "sequence_opt (Some x # xs) = (case sequence_opt xs of None \<Rightarrow> None | Some ys \<Rightarrow> Some (x # ys))"

function items_node :: "('k, 'v) node \<Rightarrow> ('k \<times> 'v) list option" where
  "items_node x =
     (if leaf x then Some (zip (keys x) (vals x))
      else if length (child x) \<le> length (keys x) \<or> length (vals x) < length (keys x) then None
      else
        (case sequence_opt (map (\<lambda>i. items_node (child x ! i)) [0..<Suc (length (keys x))]) of
           None \<Rightarrow> None
         | Some rs \<Rightarrow>
             Some (concat (map (\<lambda>i. rs ! i @ [(keys x ! i, vals x ! i)]) [0..<length (keys x)])
                   @ rs ! length (keys x))))"
  by pat_completeness auto
termination
  by (relation "measure size") (auto simp: size_child_sel)

declare items_node.simps [simp del]

text \<open>\<^verbatim>\<open>split_child(x, i)\<close> with minimum degree \<open>t\<close>. The child \<open>y = x.child[i]\<close> is cut in
  place and stays at position \<open>i\<close>; the new node \<open>z\<close> goes to position \<open>i + 1\<close>.\<close>

definition split_child :: "int \<Rightarrow> ('k, 'v) node \<Rightarrow> nat \<Rightarrow> ('k, 'v) node option" where
  "split_child t x i =
     (case py_nth (child x) i of
        None \<Rightarrow> None
      | Some y \<Rightarrow>
          (case py_index (keys y) (t - 1) of
             None \<Rightarrow> None
           | Some jk \<Rightarrow>
               (case py_index (vals y) (t - 1) of
                  None \<Rightarrow> None
                | Some jv \<Rightarrow>
                    (let z = Node (leaf y)
                               (py_slice (keys y) t (2 * t - 1))
                               (py_slice (vals y) t (2 * t - 1))
                               (if leaf y then [] else py_slice (child y) t (2 * t));
                         y' = Node (leaf y)
                               (py_slice (keys y) 0 (t - 1))
                               (py_slice (vals y) 0 (t - 1))
                               (if leaf y then child y else py_slice (child y) 0 t)
                     in Some (Node (leaf x)
                               (py_insert (keys x) i (keys y ! jk))
                               (py_insert (vals x) i (vals y ! jv))
                               ((py_insert (child x) (i + 1) z)[i := y']))))))"

lemma size_list_take_le: "size_list f (take n xs) \<le> size_list f xs"
proof (induction xs arbitrary: n)
  case Nil
  then show ?case by simp
next
  case (Cons a xs)
  show ?case using Cons.IH[of "n - 1"] by (cases n) auto
qed

lemma size_list_drop_le: "size_list f (drop n xs) \<le> size_list f xs"
proof (induction xs arbitrary: n)
  case Nil
  then show ?case by simp
next
  case (Cons a xs)
  show ?case using Cons.IH[of "n - 1"] by (cases n) (auto intro: le_SucI trans_le_add2)
qed

lemma size_list_py_slice_le: "size_list f (py_slice xs a b) \<le> size_list f xs"
  unfolding py_slice_def Let_def
  by (rule order_trans[OF size_list_take_le size_list_drop_le])

lemma length_py_slice_le: "length (py_slice xs a b) \<le> length xs"
  by (simp add: py_slice_def Let_def)

lemma size_in_child: "c \<in> set (child x) \<Longrightarrow> size c < size x"
  by (metis in_set_conv_nth size_child_sel)

lemma split_child_size:
  assumes "split_child t x i = Some x'" and "c \<in> set (child x')"
  shows "size c < size x"
proof -
  from assms(1) obtain y jk jv where
    y: "i < length (child x)" "y = child x ! i"
    and x': "x' = Node (leaf x) (py_insert (keys x) i (keys y ! jk))
                  (py_insert (vals x) i (vals y ! jv))
                  ((py_insert (child x) (i + 1)
                      (Node (leaf y) (py_slice (keys y) t (2 * t - 1))
                         (py_slice (vals y) t (2 * t - 1))
                         (if leaf y then [] else py_slice (child y) t (2 * t))))
                   [i := Node (leaf y) (py_slice (keys y) 0 (t - 1))
                         (py_slice (vals y) 0 (t - 1))
                         (if leaf y then child y else py_slice (child y) 0 t)])"
    by (auto simp: split_child_def py_nth_def Let_def split: option.splits if_splits)
  let ?z = "Node (leaf y) (py_slice (keys y) t (2 * t - 1)) (py_slice (vals y) t (2 * t - 1))
              (if leaf y then [] else py_slice (child y) t (2 * t))"
  let ?y' = "Node (leaf y) (py_slice (keys y) 0 (t - 1)) (py_slice (vals y) 0 (t - 1))
              (if leaf y then child y else py_slice (child y) 0 t)"
  have ysz: "size y < size x" using y by (simp add: size_child_sel)
  have zle: "size ?z \<le> size y"
    using length_py_slice_le[of "keys y" t "2 * t - 1"]
      length_py_slice_le[of "vals y" t "2 * t - 1"]
      size_list_py_slice_le[of size "child y" t "2 * t"]
    by (cases y) auto
  have yle: "size ?y' \<le> size y"
    using length_py_slice_le[of "keys y" 0 "t - 1"]
      length_py_slice_le[of "vals y" 0 "t - 1"]
      size_list_py_slice_le[of size "child y" 0 t]
    by (cases y) auto
  from assms(2) x' have "c \<in> set ((py_insert (child x) (i + 1) ?z)[i := ?y'])" by simp
  then have "c = ?y' \<or> c \<in> set (py_insert (child x) (i + 1) ?z)"
    using set_update_subset_insert by fastforce
  then have "c = ?y' \<or> c = ?z \<or> c \<in> set (child x)"
    by (auto simp: py_insert_def dest: in_set_takeD in_set_dropD)
  then show ?thesis using ysz zle yle size_in_child by fastforce
qed

text \<open>\<^verbatim>\<open>insert_non_full(x, k, v)\<close>. In a leaf the keys right of the gap are shifted and
  \<open>(k, v)\<close> is placed; the values list is indexed with the positions of the keys list,
  so a shorter values list raises IndexError. A leaf whose values list is longer than
  its keys list would keep the \<^verbatim>\<open>None\<close> placeholder that the method appends; the value
  type has no such element, no method builds such a leaf, and the model gives no result
  for it. In an inner node the child to descend into is split first when it is full,
  that is when it holds exactly \<open>2t - 1\<close> keys.\<close>

function insert_non_full ::
    "int \<Rightarrow> ('k::linorder, 'v) node \<Rightarrow> 'k \<Rightarrow> 'v \<Rightarrow> ('k, 'v) node option" where
  "insert_non_full t x k v =
     (let i = scan_down k (keys x) in
      if leaf x then
        (if length (vals x) = length (keys x)
         then Some (Node (leaf x) (py_insert (keys x) i k) (py_insert (vals x) i v) (child x))
         else None)
      else
        (case py_nth (child x) i of
           None \<Rightarrow> None
         | Some y \<Rightarrow>
             if int (length (keys y)) = 2 * t - 1 then
               (case split_child t x i of
                  None \<Rightarrow> None
                | Some x' \<Rightarrow>
                    (let i' = (if k > keys x' ! i then i + 1 else i) in
                     case py_nth (child x') i' of
                       None \<Rightarrow> None
                     | Some c \<Rightarrow>
                         (case insert_non_full t c k v of
                            None \<Rightarrow> None
                          | Some c' \<Rightarrow>
                              Some (Node (leaf x') (keys x') (vals x') ((child x')[i' := c'])))))
             else
               (case insert_non_full t y k v of
                  None \<Rightarrow> None
                | Some y' \<Rightarrow>
                    Some (Node (leaf x) (keys x) (vals x) ((child x)[i := y'])))))"
  by pat_completeness auto
termination
proof (relation "measure (\<lambda>(t, x, k, v). size x)", goal_cases)
  case 1
  show ?case by simp
next
  case (2 t x k v i y x' i' c)
  then have "c \<in> set (child x')" by (auto simp: py_nth_def split: if_splits)
  with 2 show ?case using split_child_size by fastforce
next
  case (3 t x k v i y)
  then show ?case by (auto simp: py_nth_def size_child_sel split: if_splits)
qed

declare insert_non_full.simps [simp del]

text \<open>The write-ahead log: the file at \<^verbatim>\<open>log_path\<close> holds one JSON object
  \<^verbatim>\<open>{"op": ..., "key": ..., "value": ...}\<close> per line; the model keeps the file as the list
  of these entries. \<^verbatim>\<open>WriteAheadLog.write\<close> appends one line and flushes.\<close>

type_synonym ('k, 'v) log_entry = "string \<times> 'k \<times> 'v"

definition wal_write :: "('k, 'v) log_entry list \<Rightarrow> string \<Rightarrow> 'k \<Rightarrow> 'v \<Rightarrow> ('k, 'v) log_entry list" where
  "wal_write log operation k v = log @ [(operation, k, v)]"

text \<open>\<^verbatim>\<open>BTree\<close>: the root, the minimum degree \<^verbatim>\<open>t\<close> (here \<open>deg\<close>) and the log; \<open>wal\<close> is
  the content of the log file that the tree's \<^verbatim>\<open>WriteAheadLog\<close> has open.\<close>

record ('k, 'v) btree =
  root :: "('k, 'v) node"
  deg :: int
  wal :: "('k, 'v) log_entry list"

definition search :: "('k::linorder, 'v) btree \<Rightarrow> 'k \<Rightarrow> 'v option option" where
  "search bt k = search_node (root bt) k"

definition items :: "('k, 'v) btree \<Rightarrow> ('k \<times> 'v) list option" where
  "items bt = items_node (root bt)"

text \<open>\<^verbatim>\<open>insert(k, v, wal)\<close> (here \<open>insert_bt\<close>): log the operation when \<^verbatim>\<open>wal\<close> is true; overwrite the value when
  the search finds the key; otherwise split a full root under a new root and insert.\<close>

definition insert_bt ::
    "('k::linorder, 'v) btree \<Rightarrow> 'k \<Rightarrow> 'v \<Rightarrow> bool \<Rightarrow> ('k, 'v) btree option" where
  "insert_bt bt k v w =
     (let bt1 = (if w then bt\<lparr>wal := wal_write (wal bt) ''insert'' k v\<rparr> else bt) in
      case search bt1 k of
        None \<Rightarrow> None
      | Some (Some existing_value) \<Rightarrow>
          (case update_node (root bt1) k v of
             None \<Rightarrow> None
           | Some (r, b) \<Rightarrow> Some (bt1\<lparr>root := r\<rparr>))
      | Some None \<Rightarrow>
          if int (length (keys (root bt1))) = 2 * deg bt1 - 1 then
            (case split_child (deg bt1) (Node False [] [] [root bt1]) 0 of
               None \<Rightarrow> None
             | Some temp \<Rightarrow>
                 (case insert_non_full (deg bt1) temp k v of
                    None \<Rightarrow> None
                  | Some r \<Rightarrow> Some (bt1\<lparr>root := r\<rparr>)))
          else
            (case insert_non_full (deg bt1) (root bt1) k v of
               None \<Rightarrow> None
             | Some r \<Rightarrow> Some (bt1\<lparr>root := r\<rparr>)))"

text \<open>\<^verbatim>\<open>WriteAheadLog.recover\<close>: every line of the file, in order; an entry whose
  operation is \<^verbatim>\<open>insert\<close> is inserted without logging.\<close>

fun replay :: "('k::linorder, 'v) btree \<Rightarrow> ('k, 'v) log_entry list \<Rightarrow> ('k, 'v) btree option" where
  "replay bt [] = Some bt"
| "replay bt ((operation, k, v) # es) =
     (if operation = ''insert''
      then (case insert_bt bt k v False of None \<Rightarrow> None | Some bt' \<Rightarrow> replay bt' es)
      else replay bt es)"

definition recover :: "('k::linorder, 'v) btree \<Rightarrow> ('k, 'v) btree option" where
  "recover bt = replay bt (wal bt)"

text \<open>\<^verbatim>\<open>BTree(t, wal_path)\<close>: an empty leaf as root, the log file opened in mode \<^verbatim>\<open>a+\<close>
  (so its content \<open>file\<close> is kept; a missing file is created empty), then recovery.\<close>

definition BTree :: "int \<Rightarrow> ('k::linorder, 'v) log_entry list \<Rightarrow> ('k, 'v) btree option" where
  "BTree t file = recover \<lparr>root = BTreeNode True, deg = t, wal = file\<rparr>"

text \<open>The engine interface of the B-tree: \<^verbatim>\<open>put\<close>, \<^verbatim>\<open>get\<close> and \<^verbatim>\<open>delete\<close>.\<close>

definition TOMBSTONE :: string where
  "TOMBSTONE = ''__TOMBSTONE__''"

definition bt_put :: "('k::linorder, 'v) btree \<Rightarrow> 'k \<Rightarrow> 'v \<Rightarrow> ('k, 'v) btree option" where
  "bt_put bt k v = insert_bt bt k v True"

definition bt_get :: "('k::linorder, 'v) btree \<Rightarrow> 'k \<Rightarrow> 'v option option" where
  "bt_get bt k = search bt k"

definition bt_delete :: "('k::linorder, string) btree \<Rightarrow> 'k \<Rightarrow> ('k, string) btree option" where
  "bt_delete bt k = insert_bt bt k TOMBSTONE True"
section \<open>JSON lines\<close>

text \<open>The data file of a segment holds one line \<^verbatim>\<open>json.dumps({key: value}) + '\n'\<close> per record.
  \<^verbatim>\<open>json.dumps\<close> and \<^verbatim>\<open>json.loads\<close> belong to the Python library and are inverse to each
  other on these lines; the model identifies a line with the record it encodes and keeps
  the number of bytes of its encoding, which the sparse index counts. The encoder writes
  ASCII only: a quote and a backslash are escaped with a backslash, the control
  characters \<^verbatim>\<open>\b \t \n \f \r\<close> get their two-character escapes, and every other character
  outside the range from the space to the tilde becomes \<^verbatim>\<open>\u00XX\<close>.\<close>

definition hex_digit :: "nat \<Rightarrow> char" where
  "hex_digit d = (if d < 10 then char_of (48 + d) else char_of (87 + d))"

definition json_char :: "char \<Rightarrow> string" where
  "json_char c =
     (let n = (of_char c :: nat) in
      if n = 0x22 then [CHR 0x5C, CHR 0x22]
      else if n = 0x5C then [CHR 0x5C, CHR 0x5C]
      else if n = 0x08 then [CHR 0x5C, CHR ''b'']
      else if n = 0x09 then [CHR 0x5C, CHR ''t'']
      else if n = 0x0A then [CHR 0x5C, CHR ''n'']
      else if n = 0x0C then [CHR 0x5C, CHR ''f'']
      else if n = 0x0D then [CHR 0x5C, CHR ''r'']
      else if n < 0x20 \<or> 0x7E < n
        then [CHR 0x5C, CHR ''u'', CHR ''0'', CHR ''0'', hex_digit (n div 16), hex_digit (n mod 16)]
      else [c])"

definition json_str :: "string \<Rightarrow> string" where
  "json_str s = [CHR 0x22] @ concat (map json_char s) @ [CHR 0x22]"

definition json_line :: "string \<Rightarrow> string \<Rightarrow> string" where
  "json_line k v = ''{'' @ json_str k @ '': '' @ json_str v @ ''}'' @ [CHR 0x0A]"

definition line_bytes :: "string \<times> string \<Rightarrow> nat" where
  "line_bytes r = length (json_line (fst r) (snd r))"

section \<open>SSTable (sstable.py)\<close>

text \<open>The engine directory. A segment with base name \<open>N\<close> is the three files \<^verbatim>\<open>N.sst\<close>,
  \<^verbatim>\<open>N.index\<close> and \<^verbatim>\<open>N.bf\<close>; the side files are named by \<^verbatim>\<open>filename.replace('.sst', ...)\<close>,
  which changes the extension only, as long as the path of the directory does not itself
  contain \<^verbatim>\<open>.sst\<close>. The model keeps one map per extension, from the base name to the
  decoded content: the records of the data file in the order of its lines, the pairs of
  the sparse index, and the bloom filter snapshot. The log file \<^verbatim>\<open>btree.wal\<close> of the
  directory is the \<open>wal\<close> field of the memtable that has it open.\<close>

record directory =
  sst_files :: "string \<rightharpoonup> (string \<times> string) list"
  index_files :: "string \<rightharpoonup> (string \<times> nat) list"
  bf_files :: "string \<rightharpoonup> bloom_filter"

definition empty_directory :: directory where
  "empty_directory = \<lparr>sst_files = Map.empty, index_files = Map.empty, bf_files = Map.empty\<rparr>"

definition SPARSE_INDEX_STRIDE :: nat where
  "SPARSE_INDEX_STRIDE = 10"

text \<open>\<^verbatim>\<open>SSTable\<close>: \<open>filename\<close> is the base name of the data file, \<open>bloom\<close> the attribute
  \<^verbatim>\<open>bloom_filter\<close> (\<open>None\<close> when the \<^verbatim>\<open>.bf\<close> file is missing).\<close>

record sstable =
  filename :: string
  bloom :: "bloom_filter option"
  sparse_index :: "(string \<times> nat) list"

text \<open>The loop shared by \<^verbatim>\<open>_build_sparse_index\<close> and \<^verbatim>\<open>write_from_memtable\<close>: line number
  \<open>i\<close> starts at byte \<open>offset\<close>, and every line whose number is a multiple of the stride
  contributes its key and its offset.\<close>

fun sparse_entries :: "(string \<times> string) list \<Rightarrow> nat \<Rightarrow> nat \<Rightarrow> (string \<times> nat) list" where
  "sparse_entries [] offset i = []"
| "sparse_entries (r # rs) offset i =
     (if i mod SPARSE_INDEX_STRIDE = 0
      then (fst r, offset) # sparse_entries rs (offset + line_bytes r) (i + 1)
      else sparse_entries rs (offset + line_bytes r) (i + 1))"

text \<open>\<^verbatim>\<open>_load_or_build_index\<close>: load the index file when it exists; otherwise, when the data
  file exists, build the index from it and write the index file.\<close>

definition load_or_build_index :: "directory \<Rightarrow> string \<Rightarrow> (string \<times> nat) list \<times> directory" where
  "load_or_build_index d name =
     (case index_files d name of
        Some idx \<Rightarrow> (idx, d)
      | None \<Rightarrow>
          (case sst_files d name of
             Some recs \<Rightarrow>
               (let idx = sparse_entries recs 0 0
                in (idx, d\<lparr>index_files := (index_files d)(name \<mapsto> idx)\<rparr>))
           | None \<Rightarrow> ([], d)))"

text \<open>\<^verbatim>\<open>SSTable(filename)\<close>: the bloom filter is the snapshot of the \<^verbatim>\<open>.bf\<close> file, if any.\<close>

definition SSTable :: "directory \<Rightarrow> string \<Rightarrow> sstable \<times> directory" where
  "SSTable d name =
     (let (idx, d') = load_or_build_index d name
      in (\<lparr>filename = name, bloom = bf_files d name, sparse_index = idx\<rparr>, d'))"

text \<open>A Python dictionary as the list of its items in insertion order: \<^verbatim>\<open>d[k] = v\<close> and
  \<^verbatim>\<open>dict(items)\<close>.\<close>

fun dict_set :: "('k \<times> 'v) list \<Rightarrow> 'k \<Rightarrow> 'v \<Rightarrow> ('k \<times> 'v) list" where
  "dict_set [] k v = [(k, v)]"
| "dict_set ((k', v') # d) k v =
     (if k' = k then (k, v) # d else (k', v') # dict_set d k v)"

definition py_dict :: "('k \<times> 'v) list \<Rightarrow> ('k \<times> 'v) list" where
  "py_dict kvs = foldl (\<lambda>d (k, v). dict_set d k v) [] kvs"

text \<open>\<^verbatim>\<open>write_from_memtable(filename, memtable, append)\<close>: the bloom filter of the keys, the
  sorted items as lines of the data file (after its old content in append mode), the
  sparse index of the written lines, and the \<^verbatim>\<open>SSTable\<close> of the result.\<close>

definition write_from_memtable ::
    "(string \<Rightarrow> nat) \<Rightarrow> directory \<Rightarrow> string \<Rightarrow> (string \<times> string) list \<Rightarrow> bool
       \<Rightarrow> (sstable \<times> directory) option" where
  "write_from_memtable md5 d name memtable append_mode =
     (case add_all md5 (BloomFilter (max 100 (int (length memtable) * 10)) 5) (map fst memtable) of
        None \<Rightarrow> None
      | Some bf \<Rightarrow>
          (let d1 = d\<lparr>bf_files := (bf_files d)(name \<mapsto> bf)\<rparr>;
               sorted_items = sort memtable;
               old = (if append_mode then (case sst_files d1 name of None \<Rightarrow> [] | Some recs \<Rightarrow> recs)
                      else []);
               d2 = d1\<lparr>sst_files := (sst_files d1)(name \<mapsto> old @ sorted_items)\<rparr>;
               d3 = d2\<lparr>index_files := (index_files d2)(name \<mapsto> sparse_entries sorted_items 0 0)\<rparr>
           in Some (SSTable d3 name)))"

text \<open>\<^verbatim>\<open>bisect.bisect_right(a, x)\<close>, the binary search of the Python library.\<close>

function bisect_loop :: "'a::linorder list \<Rightarrow> 'a \<Rightarrow> nat \<Rightarrow> nat \<Rightarrow> nat" where
  "bisect_loop a x lo hi =
     (if lo < hi
      then (let mid = (lo + hi) div 2
            in if x < a ! mid then bisect_loop a x lo mid else bisect_loop a x (mid + 1) hi)
      else lo)"
  by pat_completeness auto
termination
  by (relation "measure (\<lambda>(a, x, lo, hi). hi - lo)") auto

declare bisect_loop.simps [simp del]

definition bisect_right :: "'a::linorder list \<Rightarrow> 'a \<Rightarrow> nat" where
  "bisect_right a x = bisect_loop a x 0 (length a)"

text \<open>\<^verbatim>\<open>f.seek(offset)\<close> in the data file: the lines from that position on. A position inside
  a line leaves a fragment that \<^verbatim>\<open>json.loads\<close> rejects, so the first read raises; the model
  writes this as \<open>None\<close>. A position at or past the end of the file reads as end of file.\<close>

fun seek_lines :: "(string \<times> string) list \<Rightarrow> nat \<Rightarrow> (string \<times> string) list option" where
  "seek_lines [] offset = Some []"
| "seek_lines (r # rs) offset =
     (if offset = 0 then Some (r # rs)
      else if offset < line_bytes r then None
      else seek_lines rs (offset - line_bytes r))"

text \<open>Seeking and reading one line: \<open>Some None\<close> at the end of the file.\<close>

definition read_line_at ::
    "(string \<times> string) list \<Rightarrow> nat \<Rightarrow> (string \<times> string) option option" where
  "read_line_at recs offset =
     (case seek_lines recs offset of
        None \<Rightarrow> None
      | Some [] \<Rightarrow> Some None
      | Some (r # rs) \<Rightarrow> Some (Some r))"

text \<open>The scan of \<^verbatim>\<open>SSTable.get\<close>: \<open>pos\<close> is the position before the next line, \<open>next_offset\<close>
  the offset of the following index entry, if there is one. The result is the value the
  method returns, with Python's \<^verbatim>\<open>None\<close> as \<open>None\<close>.\<close>

fun scan_block ::
    "(string \<times> string) list \<Rightarrow> nat \<Rightarrow> string \<Rightarrow> nat option \<Rightarrow> string option" where
  "scan_block [] pos key next_offset = None"
| "scan_block (r # rs) pos key next_offset =
     (let current_pos = pos + line_bytes r in
      if fst r = key then (if snd r = TOMBSTONE then None else Some (snd r))
      else if fst r > key then None
      else (case next_offset of
              Some off \<Rightarrow> if current_pos \<ge> off then None else scan_block rs current_pos key next_offset
            | None \<Rightarrow> scan_block rs current_pos key next_offset))"

text \<open>\<^verbatim>\<open>SSTable.get(key)\<close>. The outer option is \<open>None\<close> for an exception: from the bloom
  filter, from opening a missing data file, or from decoding a fragment of a line.\<close>

definition sstable_get ::
    "(string \<Rightarrow> nat) \<Rightarrow> directory \<Rightarrow> sstable \<Rightarrow> string \<Rightarrow> string option option" where
  "sstable_get md5 d s key =
     (case (case bloom s of None \<Rightarrow> Some True | Some bf \<Rightarrow> contains md5 bf key) of
        None \<Rightarrow> None
      | Some False \<Rightarrow> Some None
      | Some True \<Rightarrow>
          if sparse_index s = [] then Some None
          else
            (let ks = map fst (sparse_index s);
                 idx = int (bisect_right ks key) - 1;
                 start_offset = (if idx \<ge> 0 then snd (sparse_index s ! nat idx) else 0);
                 next_offset = (if nat (idx + 1) < length (sparse_index s)
                                then Some (snd (sparse_index s ! nat (idx + 1))) else None)
             in case sst_files d (filename s) of
                  None \<Rightarrow> None
                | Some recs \<Rightarrow>
                    (case seek_lines recs start_offset of
                       None \<Rightarrow> None
                     | Some ls \<Rightarrow> Some (scan_block ls start_offset key next_offset))))"

text \<open>\<^verbatim>\<open>read_iter\<close>: the records of the data file in order, nothing when the file is
  missing.\<close>

definition read_iter :: "directory \<Rightarrow> sstable \<Rightarrow> (string \<times> string) list" where
  "read_iter d s = (case sst_files d (filename s) of None \<Rightarrow> [] | Some recs \<Rightarrow> recs)"

section \<open>Min-heap (heap.py)\<close>

text \<open>The compaction pushes tuples \<^verbatim>\<open>(key, value, segment_index, iterator)\<close>. Python compares
  tuples from the left; two tuples that agree on key, value and segment index would end in
  comparing the iterators, which raises TypeError. The model keeps the first three
  components in the heap (the iterators are kept by segment index) and writes the failing
  comparison as \<open>None\<close>.\<close>

type_synonym heap_item = "string \<times> string \<times> nat"

definition item_less :: "heap_item \<Rightarrow> heap_item \<Rightarrow> bool option" where
  "item_less a b = (if a = b then None else Some (a < b))"

definition swap :: "'a list \<Rightarrow> nat \<Rightarrow> nat \<Rightarrow> 'a list" where
  "swap h i j = h[i := h ! j, j := h ! i]"

function heapify_up :: "heap_item list \<Rightarrow> nat \<Rightarrow> heap_item list option" where
  "heapify_up h index =
     (let parent_index = (index - 1) div 2 in
      if index > 0 then
        (if index < length h then
           (case item_less (h ! index) (h ! parent_index) of
              None \<Rightarrow> None
            | Some True \<Rightarrow> heapify_up (swap h index parent_index) parent_index
            | Some False \<Rightarrow> Some h)
         else None)
      else Some h)"
  by pat_completeness auto
termination
  by (relation "measure (\<lambda>(h, index). index)") auto

declare heapify_up.simps [simp del]

definition heappush :: "heap_item list \<Rightarrow> heap_item \<Rightarrow> heap_item list option" where
  "heappush h item = heapify_up (h @ [item]) (length h)"

lemma length_swap [simp]: "length (swap h i j) = length h"
  by (simp add: swap_def)

text \<open>The first half of \<^verbatim>\<open>_heapify_down\<close>: the index \<^verbatim>\<open>smallest\<close> among \<open>index\<close> and its
  children.\<close>

definition pick_smallest :: "heap_item list \<Rightarrow> nat \<Rightarrow> nat option" where
  "pick_smallest h index =
     (let left_child_index = 2 * index + 1;
          right_child_index = 2 * index + 2
      in case (if left_child_index < length h
               then (case item_less (h ! left_child_index) (h ! index) of
                       None \<Rightarrow> None
                     | Some b \<Rightarrow> Some (if b then left_child_index else index))
               else Some index) of
           None \<Rightarrow> None
         | Some smallest1 \<Rightarrow>
             (if right_child_index < length h
              then (case item_less (h ! right_child_index) (h ! smallest1) of
                      None \<Rightarrow> None
                    | Some b \<Rightarrow> Some (if b then right_child_index else smallest1))
              else Some smallest1))"

lemma pick_smallest_range:
  "pick_smallest h index = Some smallest \<Longrightarrow> smallest \<noteq> index \<Longrightarrow>
   index < smallest \<and> smallest < length h"
  by (auto simp: pick_smallest_def Let_def split: if_splits option.splits)

function heapify_down :: "heap_item list \<Rightarrow> nat \<Rightarrow> heap_item list option" where
  "heapify_down h index =
     (case pick_smallest h index of
        None \<Rightarrow> None
      | Some smallest \<Rightarrow>
          if smallest \<noteq> index then heapify_down (swap h index smallest) smallest
          else Some h)"
  by pat_completeness auto
termination
  by (relation "measure (\<lambda>(h, index). length h - index)")
     (auto dest: pick_smallest_range)

declare heapify_down.simps [simp del]

text \<open>\<^verbatim>\<open>heappop\<close>: IndexError on an empty heap.\<close>

definition heappop :: "heap_item list \<Rightarrow> (heap_item \<times> heap_item list) option" where
  "heappop h =
     (if h = [] then None
      else if length h = 1 then Some (last h, butlast h)
      else (case heapify_down ((butlast h)[0 := last h]) 0 of
              None \<Rightarrow> None
            | Some h' \<Rightarrow> Some (h ! 0, h')))"

section \<open>Levenshtein distance (levensthein.py)\<close>

text \<open>The inner loop of \<^verbatim>\<open>Levenshtein.distance\<close>: \<open>j\<close> runs over the characters of \<open>s2\<close>
  from position \<open>j\<close> on, extending \<open>current_row\<close>. Both rows are indexed as in the source;
  the previous row has one entry more than \<open>s2\<close> has characters.\<close>

fun row_loop :: "char \<Rightarrow> string \<Rightarrow> nat list \<Rightarrow> nat \<Rightarrow> nat list \<Rightarrow> nat list" where
  "row_loop c1 [] previous_row j current_row = current_row"
| "row_loop c1 (c2 # s2) previous_row j current_row =
     (let insertions = previous_row ! (j + 1) + 1;
          deletions = current_row ! j + 1;
          substitutions = previous_row ! j + (if c1 \<noteq> c2 then 1 else 0)
      in row_loop c1 s2 previous_row (j + 1)
           (current_row @ [min insertions (min deletions substitutions)]))"

text \<open>The outer loop: \<open>i\<close> is the number of characters of \<open>s1\<close> consumed so far.\<close>

fun rows_loop :: "string \<Rightarrow> string \<Rightarrow> nat \<Rightarrow> nat list \<Rightarrow> nat list" where
  "rows_loop [] s2 i previous_row = previous_row"
| "rows_loop (c1 # s1) s2 i previous_row =
     rows_loop s1 s2 (i + 1) (row_loop c1 s2 previous_row 0 [i + 1])"

definition distance_ordered :: "string \<Rightarrow> string \<Rightarrow> nat" where
  "distance_ordered s1 s2 = last (rows_loop s1 s2 0 [0..<length s2 + 1])"

definition distance :: "string \<Rightarrow> string \<Rightarrow> nat" where
  "distance s1 s2 =
     (if length s1 < length s2 then distance_ordered s2 s1 else distance_ordered s1 s2)"

section \<open>LSM tree (lsmtree.py)\<close>

text \<open>\<^verbatim>\<open>LSMTree\<close>: the memtable (a B-tree of minimum degree 5 on the log file
  \<^verbatim>\<open>btree.wal\<close>), the threshold, the segment list (oldest first) and the segment counter;
  \<open>dir\<close> is the content of the engine directory.\<close>

record lsm =
  memtable :: "(string, string) btree"
  memtable_threshold :: int
  segments :: "sstable list"
  segment_counter :: nat
  dir :: directory

text \<open>The base name \<^verbatim>\<open>f"{segment_counter:05d}"\<close>.\<close>

definition fmt05 :: "nat \<Rightarrow> string" where
  "fmt05 n = replicate (5 - length (str_nat n)) (CHR ''0'') @ str_nat n"

text \<open>\<^verbatim>\<open>LSMTree(directory, memtable_threshold)\<close> on a directory that does not exist yet or
  is empty: no log to recover, no segment to load, counter 0.\<close>

definition LSMTree :: "int \<Rightarrow> lsm option" where
  "LSMTree threshold =
     (case BTree 5 [] of
        None \<Rightarrow> None
      | Some m \<Rightarrow>
          Some \<lparr>memtable = m, memtable_threshold = threshold, segments = [],
                segment_counter = 0, dir = empty_directory\<rparr>)"

text \<open>\<^verbatim>\<open>_flush_memtable\<close>: nothing for an empty memtable; otherwise the items are written
  as a new segment, the segment is opened and appended, the counter incremented, and the
  memtable replaced by a new \<^verbatim>\<open>BTree\<close> on the same log file.\<close>

definition flush_memtable :: "(string \<Rightarrow> nat) \<Rightarrow> lsm \<Rightarrow> lsm option" where
  "flush_memtable md5 st =
     (case items (memtable st) of
        None \<Rightarrow> None
      | Some its \<Rightarrow>
          if its = [] then Some st
          else
            (let segment_filename = fmt05 (segment_counter st) in
             case write_from_memtable md5 (dir st) segment_filename (py_dict its) False of
               None \<Rightarrow> None
             | Some (written, d1) \<Rightarrow>
                 (let (s, d2) = SSTable d1 segment_filename in
                  case BTree 5 (wal (memtable st)) of
                    None \<Rightarrow> None
                  | Some m \<Rightarrow>
                      Some (st\<lparr>segments := segments st @ [s],
                               segment_counter := segment_counter st + 1,
                               memtable := m,
                               dir := d2\<rparr>))))"

definition put :: "(string \<Rightarrow> nat) \<Rightarrow> lsm \<Rightarrow> string \<Rightarrow> string \<Rightarrow> lsm option" where
  "put md5 st key value =
     (case insert_bt (memtable st) key value True of
        None \<Rightarrow> None
      | Some m \<Rightarrow>
          (case items m of
             None \<Rightarrow> None
           | Some its \<Rightarrow>
               if int (length its) \<ge> memtable_threshold st
               then flush_memtable md5 (st\<lparr>memtable := m\<rparr>)
               else Some (st\<lparr>memtable := m\<rparr>)))"

definition delete :: "(string \<Rightarrow> nat) \<Rightarrow> lsm \<Rightarrow> string \<Rightarrow> lsm option" where
  "delete md5 st key = put md5 st key TOMBSTONE"

definition close :: "(string \<Rightarrow> nat) \<Rightarrow> lsm \<Rightarrow> lsm option" where
  "close md5 st = flush_memtable md5 st"

text \<open>The segment loop of \<^verbatim>\<open>get\<close>, over the segments newest first. With a bloom filter the
  segment is skipped on a negative answer; the first value that is not \<^verbatim>\<open>None\<close> is
  returned, a tombstone as \<^verbatim>\<open>None\<close>.\<close>

fun get_segments ::
    "(string \<Rightarrow> nat) \<Rightarrow> directory \<Rightarrow> sstable list \<Rightarrow> string \<Rightarrow> string option option" where
  "get_segments md5 d [] key = Some None"
| "get_segments md5 d (segment # rest) key =
     (case (case bloom segment of None \<Rightarrow> Some True | Some bf \<Rightarrow> contains md5 bf key) of
        None \<Rightarrow> None
      | Some False \<Rightarrow> get_segments md5 d rest key
      | Some True \<Rightarrow>
          (case sstable_get md5 d segment key of
             None \<Rightarrow> None
           | Some (Some value) \<Rightarrow> Some (if value = TOMBSTONE then None else Some value)
           | Some None \<Rightarrow> get_segments md5 d rest key))"

definition get :: "(string \<Rightarrow> nat) \<Rightarrow> lsm \<Rightarrow> string \<Rightarrow> string option option" where
  "get md5 st key =
     (case search (memtable st) key of
        None \<Rightarrow> None
      | Some (Some value) \<Rightarrow> Some (if value = TOMBSTONE then None else Some value)
      | Some None \<Rightarrow> get_segments md5 (dir st) (rev (segments st)) key)"

subsection \<open>Compaction\<close>

text \<open>The iterators of the merge, by segment index: the records not yet read. Every
  segment file is read through \<^verbatim>\<open>read_iter\<close>; the merge writes to the temporary file only.
  \<^verbatim>\<open>next(seg_iter)\<close> takes the first remaining record; an exhausted iterator raises
  StopIteration, which the loops catch.\<close>

definition next_item ::
    "(string \<times> string) list list \<Rightarrow> nat
       \<Rightarrow> ((string \<times> string) \<times> (string \<times> string) list list) option" where
  "next_item iters i =
     (if i < length iters
      then (case iters ! i of [] \<Rightarrow> None | r # rs \<Rightarrow> Some (r, iters[i := rs]))
      else None)"

text \<open>Priming the heap with the first record of every segment, from index \<open>i\<close> on.\<close>

function prime_heap ::
    "heap_item list \<Rightarrow> (string \<times> string) list list \<Rightarrow> nat
       \<Rightarrow> (heap_item list \<times> (string \<times> string) list list) option" where
  "prime_heap h iters i =
     (if i < length iters then
        (case next_item iters i of
           None \<Rightarrow> prime_heap h iters (i + 1)
         | Some (r, iters') \<Rightarrow>
             (case heappush h (fst r, snd r, i) of
                None \<Rightarrow> None
              | Some h' \<Rightarrow> prime_heap h' iters' (i + 1)))
      else Some (h, iters))"
  by pat_completeness auto
termination
  by (relation "measure (\<lambda>(h, iters, i). length iters - i)")
     (auto simp: next_item_def split: if_splits list.splits)

declare prime_heap.simps [simp del]

text \<open>Writing the merged record of \<open>last_key\<close> unless it is a tombstone:
  \<^verbatim>\<open>write_from_memtable(f.name, {last_key: merged_data[last_key]}, append=True)\<close> and
  \<^verbatim>\<open>all_keys.append(last_key)\<close>. A key missing from \<^verbatim>\<open>merged_data\<close> would raise KeyError.\<close>

definition emit ::
    "(string \<Rightarrow> nat) \<Rightarrow> string \<Rightarrow> string \<Rightarrow> (string \<rightharpoonup> string) \<Rightarrow> string list \<Rightarrow> directory
       \<Rightarrow> (string list \<times> directory) option" where
  "emit md5 temp last_key merged_data all_keys d =
     (case merged_data last_key of
        None \<Rightarrow> None
      | Some v \<Rightarrow>
          if v \<noteq> TOMBSTONE then
            (case write_from_memtable md5 d temp [(last_key, v)] True of
               None \<Rightarrow> None
             | Some (written, d') \<Rightarrow> Some (all_keys @ [last_key], d'))
          else Some (all_keys, d))"

lemma length_heapify_up: "heapify_up h i = Some h' \<Longrightarrow> length h' = length h"
proof (induction h i arbitrary: h' rule: heapify_up.induct)
  case (1 h index)
  show ?case
  proof (cases "index > 0 \<and> index < length h
                 \<and> item_less (h ! index) (h ! ((index - 1) div 2)) = Some True")
    case True
    then have "heapify_up (swap h index ((index - 1) div 2)) ((index - 1) div 2) = Some h'"
      using "1.prems" by (subst (asm) heapify_up.simps) (simp add: Let_def)
    from "1.IH"[OF refl _ _ _ _ this] True show ?thesis by simp
  next
    case False
    then have "h' = h"
      using "1.prems"
      by (subst (asm) heapify_up.simps) (auto simp: Let_def split: if_splits option.splits bool.splits)
    then show ?thesis by simp
  qed
qed

lemma length_heappush: "heappush h item = Some h' \<Longrightarrow> length h' = Suc (length h)"
  unfolding heappush_def by (drule length_heapify_up) simp

lemma length_heapify_down: "heapify_down h i = Some h' \<Longrightarrow> length h' = length h"
proof (induction h i arbitrary: h' rule: heapify_down.induct)
  case (1 h index)
  from "1.prems" obtain smallest where s: "pick_smallest h index = Some smallest"
    by (subst (asm) heapify_down.simps) (auto split: option.splits)
  show ?case
  proof (cases "smallest = index")
    case True
    then show ?thesis using "1.prems" s by (subst (asm) heapify_down.simps) simp
  next
    case False
    then have "heapify_down (swap h index smallest) smallest = Some h'"
      using "1.prems" s by (subst (asm) heapify_down.simps) simp
    from "1.IH"[OF s False this] show ?thesis by simp
  qed
qed

lemma length_heappop: "heappop h = Some (x, h') \<Longrightarrow> Suc (length h') = length h"
proof (cases h)
  case Nil
  then show "heappop h = Some (x, h') \<Longrightarrow> Suc (length h') = length h"
    by (simp add: heappop_def)
next
  case (Cons a as)
  then show "heappop h = Some (x, h') \<Longrightarrow> Suc (length h') = length h"
    unfolding heappop_def
    by (auto split: if_splits option.splits dest!: length_heapify_down)
qed

lemma next_item_less:
  "next_item iters i = Some (r, iters') \<Longrightarrow>
   Suc (sum_list (map length iters')) = sum_list (map length iters)"
proof -
  assume a: "next_item iters i = Some (r, iters')"
  then obtain rs where i: "i < length iters" "iters ! i = r # rs" "iters' = iters[i := rs]"
    by (auto simp: next_item_def split: if_splits list.splits)
  have 1: "iters = take i iters @ (r # rs) # drop (Suc i) iters"
    using id_take_nth_drop[OF i(1)] i(2) by simp
  have 2: "iters' = take i iters @ rs # drop (Suc i) iters"
    using i(1,3) by (simp add: upd_conv_take_nth_drop)
  have "sum_list (map length iters)
          = sum_list (map length (take i iters @ (r # rs) # drop (Suc i) iters))"
    using 1 by simp
  then show ?thesis unfolding 2 by simp
qed

text \<open>The merge loop \<^verbatim>\<open>while min_heap\<close>: pop the least tuple, write the previous key when
  the key changes, record the value, and push the next tuple of the same segment.\<close>

function merge_loop ::
    "(string \<Rightarrow> nat) \<Rightarrow> string \<Rightarrow> heap_item list \<Rightarrow> (string \<times> string) list list
       \<Rightarrow> string option \<Rightarrow> (string \<rightharpoonup> string) \<Rightarrow> string list \<Rightarrow> directory
       \<Rightarrow> (string option \<times> (string \<rightharpoonup> string) \<times> string list \<times> directory) option" where
  "merge_loop md5 temp h iters last_key merged_data all_keys d =
     (if h = [] then Some (last_key, merged_data, all_keys, d)
      else
        (case heappop h of
           None \<Rightarrow> None
         | Some ((key, value, seg_idx), h1) \<Rightarrow>
             (case (if Some key \<noteq> last_key then
                      (case last_key of
                         None \<Rightarrow> Some (Some key, all_keys, d)
                       | Some lk \<Rightarrow>
                           (case emit md5 temp lk merged_data all_keys d of
                              None \<Rightarrow> None
                            | Some (ak, d') \<Rightarrow> Some (Some key, ak, d')))
                    else Some (last_key, all_keys, d)) of
                None \<Rightarrow> None
              | Some (last_key', all_keys', d') \<Rightarrow>
                  (case next_item iters seg_idx of
                     None \<Rightarrow>
                       merge_loop md5 temp h1 iters last_key' (merged_data(key \<mapsto> value))
                         all_keys' d'
                   | Some (r, iters') \<Rightarrow>
                       (case heappush h1 (fst r, snd r, seg_idx) of
                          None \<Rightarrow> None
                        | Some h2 \<Rightarrow>
                            merge_loop md5 temp h2 iters' last_key' (merged_data(key \<mapsto> value))
                              all_keys' d')))))"
  by pat_completeness auto
termination
proof (relation "measure (\<lambda>(md5, temp, h, iters, last_key, merged_data, all_keys, d).
                    length h + 2 * sum_list (map length iters))", goal_cases)
  case 1
  show ?case by simp
next
  case (2 md5 temp h iters last_key merged_data all_keys d x2 x y)
  then have "heappop h = Some (x, y)" by simp
  from length_heappop[OF this] show ?case by simp
next
  case (3 md5 temp h iters last_key merged_data all_keys d x2 x y xa ya xb yb x2a xc yaa xd
          yab x2b xe yac x2c)
  then have "heappop h = Some (x, y)" "next_item iters yb = Some (xe, yac)"
    "heappush y (fst xe, snd xe, yb) = Some x2c"
    by simp_all
  from length_heappop[OF this(1)] next_item_less[OF this(2)] length_heappush[OF this(3)]
  show ?case by simp
qed

declare merge_loop.simps [simp del]

text \<open>\<^verbatim>\<open>shutil.move(src, dst)\<close> for data files and the removal of the old segments:
  \<^verbatim>\<open>os.remove\<close> raises for a missing data file, the side files are removed when they
  exist.\<close>

definition move_file :: "directory \<Rightarrow> string \<Rightarrow> string \<Rightarrow> directory option" where
  "move_file d src dst =
     (case sst_files d src of
        None \<Rightarrow> None
      | Some recs \<Rightarrow> Some (d\<lparr>sst_files := ((sst_files d)(src := None))(dst \<mapsto> recs)\<rparr>))"

fun remove_segments :: "directory \<Rightarrow> sstable list \<Rightarrow> directory option" where
  "remove_segments d [] = Some d"
| "remove_segments d (s # ss) =
     (case sst_files d (filename s) of
        None \<Rightarrow> None
      | Some recs \<Rightarrow>
          remove_segments
            (d\<lparr>sst_files := (sst_files d)(filename s := None),
               index_files := (index_files d)(filename s := None),
               bf_files := (bf_files d)(filename s := None)\<rparr>) ss)"

text \<open>\<^verbatim>\<open>compact()\<close> at the time \<open>now\<close> (\<^verbatim>\<open>int(time.time())\<close>, which names the temporary
  file).\<close>

definition compact :: "(string \<Rightarrow> nat) \<Rightarrow> nat \<Rightarrow> lsm \<Rightarrow> lsm option" where
  "compact md5 now st =
     (if length (segments st) < 2 then Some st
      else
        (let temp = ''temp_compacted_'' @ str_nat now;
             segment_iters = map (read_iter (dir st)) (segments st)
         in case prime_heap [] segment_iters 0 of
              None \<Rightarrow> None
            | Some (h, iters) \<Rightarrow>
                (let d0 = (dir st)\<lparr>sst_files := (sst_files (dir st))(temp \<mapsto> [])\<rparr> in
                 case merge_loop md5 temp h iters None Map.empty [] d0 of
                   None \<Rightarrow> None
                 | Some (last_key, merged_data, keys0, d1) \<Rightarrow>
                     (case (case last_key of
                              None \<Rightarrow> Some (keys0, d1)
                            | Some lk \<Rightarrow> emit md5 temp lk merged_data keys0 d1) of
                        None \<Rightarrow> None
                      | Some (all_keys, d2) \<Rightarrow>
                          (case add_all md5
                                  (BloomFilter (max 100 (int (length all_keys) * 10)) 5) all_keys of
                             None \<Rightarrow> None
                           | Some bf \<Rightarrow>
                               (let compacted = fmt05 (segment_counter st);
                                    d3 = d2\<lparr>bf_files := (bf_files d2)(compacted \<mapsto> bf)\<rparr>
                                in case move_file d3 temp compacted of
                                     None \<Rightarrow> None
                                   | Some d4 \<Rightarrow>
                                       (case remove_segments d4 (segments st) of
                                          None \<Rightarrow> None
                                        | Some d5 \<Rightarrow>
                                            (let (s, d6) = SSTable d5 compacted in
                                             Some (st\<lparr>segments := [s],
                                                      segment_counter := segment_counter st + 1,
                                                      dir := d6\<rparr>)))))))))"

subsection \<open>Fuzzy lookup\<close>

text \<open>One pass of \<^verbatim>\<open>fuzzy_get\<close> over a sequence of items: \<open>results\<close> and \<open>checked_keys\<close> are
  carried along.\<close>

fun fuzzy_scan ::
    "string \<Rightarrow> int \<Rightarrow> (string \<times> string) list \<Rightarrow> (string \<times> string) list \<times> string list
       \<Rightarrow> (string \<times> string) list \<times> string list" where
  "fuzzy_scan search_key max_distance [] (results, checked_keys) = (results, checked_keys)"
| "fuzzy_scan search_key max_distance ((key, value) # rest) (results, checked_keys) =
     (if key \<notin> set checked_keys then
        (if int (distance search_key key) \<le> max_distance then
           fuzzy_scan search_key max_distance rest
             (if value \<noteq> TOMBSTONE then results @ [(key, value)] else results,
              checked_keys @ [key])
         else fuzzy_scan search_key max_distance rest (results, checked_keys))
      else fuzzy_scan search_key max_distance rest (results, checked_keys))"

definition fuzzy_get :: "lsm \<Rightarrow> string \<Rightarrow> int \<Rightarrow> (string \<times> string) list option" where
  "fuzzy_get st search_key max_distance =
     (case items (memtable st) of
        None \<Rightarrow> None
      | Some its \<Rightarrow>
          Some (fst (foldl (\<lambda>acc segment.
                       fuzzy_scan search_key max_distance (read_iter (dir st) segment) acc)
                     (fuzzy_scan search_key max_distance its ([], []))
                     (rev (segments st)))))"

section \<open>Sequences of calls and the nodes of a tree\<close>

text \<open>A sequence of \<^verbatim>\<open>insert(k, v)\<close> calls (the \<^verbatim>\<open>wal\<close> argument at its default, true),
  stopping at the first exception.\<close>

fun insert_all :: "('k::linorder, 'v) btree \<Rightarrow> ('k \<times> 'v) list \<Rightarrow> ('k, 'v) btree option" where
  "insert_all bt [] = Some bt"
| "insert_all bt ((k, v) # kvs) =
     (case insert_bt bt k v True of None \<Rightarrow> None | Some bt' \<Rightarrow> insert_all bt' kvs)"

text \<open>The last value inserted for a key by a sequence of calls, if any.\<close>

definition last_inserted :: "('k \<times> 'v) list \<Rightarrow> 'k \<Rightarrow> 'v option" where
  "last_inserted kvs k = map_of (rev kvs) k"

text \<open>All nodes below and including a node, and the nodes of a tree other than its root.\<close>

fun nodes :: "('k, 'v) node \<Rightarrow> ('k, 'v) node list" where
  "nodes (Node lf ks vs cs) = Node lf ks vs cs # concat (map nodes cs)"

definition nonroot_nodes :: "('k, 'v) node \<Rightarrow> ('k, 'v) node list" where
  "nonroot_nodes x = concat (map nodes (child x))"

definition key_count_ok :: "int \<Rightarrow> ('k, 'v) node \<Rightarrow> bool" where
  "key_count_ok t n \<longleftrightarrow> t - 1 \<le> int (length (keys n)) \<and> int (length (keys n)) \<le> 2 * t - 1"

definition node_shape_ok :: "('k::linorder, 'v) node \<Rightarrow> bool" where
  "node_shape_ok n \<longleftrightarrow>
     sorted_wrt (<) (keys n) \<and> length (vals n) = length (keys n) \<and> (leaf n \<longrightarrow> child n = [])"
text \<open>The bit array of a filter covers the indices of a positive size; a bit is set when
  its index is inside the array and holds a non-zero value.\<close>

definition bf_ok :: "bloom_filter \<Rightarrow> bool" where
  "bf_ok bf \<longleftrightarrow> 1 \<le> bf_size bf \<and> length (bit_array bf) = nat (bf_size bf)"

definition bit_set :: "int list \<Rightarrow> int \<Rightarrow> bool" where
  "bit_set bits h \<longleftrightarrow> 0 \<le> h \<and> nat h < length bits \<and> bits ! nat h \<noteq> 0"

definition covers :: "(string \<Rightarrow> nat) \<Rightarrow> bloom_filter \<Rightarrow> string \<Rightarrow> bool" where
  "covers md5 bf item \<longleftrightarrow>
     (\<exists>hs. hashes md5 bf item = Some hs \<and> (\<forall>h \<in> set hs. bit_set (bit_array bf) h))"
section \<open>Abstraction and invariants of the B-tree\<close>

text \<open>The in-order list of a node: the items of a leaf, and for an inner node the in-order
  lists of its children interleaved with its own items. A node is well formed when its
  values run parallel to its keys, a leaf has no children and an inner node has one child
  more than keys. The tree is a search tree when the keys of the in-order list ascend
  strictly.\<close>

fun interleave :: "'a list list \<Rightarrow> 'a list \<Rightarrow> 'a list" where
  "interleave [] es = []"
| "interleave (c # cs) [] = c"
| "interleave (c # cs) (e # es) = c @ e # interleave cs es"

fun inorder :: "('k, 'v) node \<Rightarrow> ('k \<times> 'v) list" where
  "inorder (Node lf ks vs cs) =
     (if lf then zip ks vs else interleave (map inorder cs) (zip ks vs))"

fun wf :: "('k, 'v) node \<Rightarrow> bool" where
  "wf (Node lf ks vs cs) \<longleftrightarrow>
     length vs = length ks \<and>
     (if lf then cs = [] else length cs = Suc (length ks) \<and> (\<forall>c \<in> set cs. wf c))"

definition pre :: "'a list list \<Rightarrow> 'a list \<Rightarrow> 'a list" where
  "pre cs es = concat (map (\<lambda>(c, e). c @ [e]) (zip cs es))"

definition post :: "'a list \<Rightarrow> 'a list list \<Rightarrow> 'a list" where
  "post es cs = concat (map (\<lambda>(e, c). e # c) (zip es cs))"

abbreviation ssorted :: "('k::linorder \<times> 'v) list \<Rightarrow> bool" where
  "ssorted xs \<equiv> sorted_wrt (<) (map fst xs)"

definition upd_rel :: "('k::linorder, 'v) node \<Rightarrow> ('k, 'v) node \<Rightarrow> 'k \<Rightarrow> 'v \<Rightarrow> bool" where
  "upd_rel x x' k v \<longleftrightarrow>
     wf x' \<and> ssorted (inorder x')
     \<and> fst ` set (inorder x') = insert k (fst ` set (inorder x))
     \<and> map_of (inorder x') = (map_of (inorder x))(k \<mapsto> v)"

fun bounded :: "int \<Rightarrow> ('k, 'v) node \<Rightarrow> bool" where
  "bounded t (Node lf ks vs cs) \<longleftrightarrow>
     t - 1 \<le> int (length ks) \<and> int (length ks) \<le> 2 * t - 1 \<and> (\<forall>c \<in> set cs. bounded t c)"

definition kids_bounded :: "int \<Rightarrow> ('k, 'v) node \<Rightarrow> bool" where
  "kids_bounded t x \<longleftrightarrow> (\<forall>c \<in> set (child x). bounded t c)"

definition grow_ok :: "int \<Rightarrow> ('k, 'v) node \<Rightarrow> ('k, 'v) node \<Rightarrow> bool" where
  "grow_ok t x x' \<longleftrightarrow>
     (kids_bounded t x \<longrightarrow> int (length (keys x)) < 2 * t - 1 \<longrightarrow>
        kids_bounded t x' \<and> length (keys x) \<le> length (keys x')
        \<and> int (length (keys x')) \<le> 2 * t - 1)"

definition tree_inv :: "('k::linorder, 'v) btree \<Rightarrow> bool" where
  "tree_inv bt \<longleftrightarrow> wf (root bt) \<and> ssorted (inorder (root bt))"

definition root_bounded :: "('k, 'v) btree \<Rightarrow> bool" where
  "root_bounded bt \<longleftrightarrow>
     int (length (keys (root bt))) \<le> 2 * deg bt - 1 \<and> kids_bounded (deg bt) (root bt)"

definition contents :: "('k, 'v) btree \<Rightarrow> 'k \<rightharpoonup> 'v" where
  "contents bt = map_of (inorder (root bt))"
text \<open>What a log says: the map obtained by applying its \<^verbatim>\<open>insert\<close> entries in order.\<close>

fun apply_log :: "('k \<rightharpoonup> 'v) \<Rightarrow> ('k, 'v) log_entry list \<Rightarrow> ('k \<rightharpoonup> 'v)" where
  "apply_log m [] = m"
| "apply_log m ((operation, k, v) # es) =
     apply_log (if operation = ''insert'' then m(k \<mapsto> v) else m) es"

definition insert_entries :: "('k \<times> 'v) list \<Rightarrow> ('k, 'v) log_entry list" where
  "insert_entries kvs = map (\<lambda>(k, v). (''insert'', k, v)) kvs"

definition bt_ok :: "('k::linorder, 'v) btree \<Rightarrow> bool" where
  "bt_ok bt \<longleftrightarrow> tree_inv bt \<and> (2 \<le> deg bt \<longrightarrow> root_bounded bt)"
section \<open>Bloom filter: no false negatives\<close>

text \<open>The indices produced for a filter of positive size lie inside the bit array.\<close>

lemma py_index_in_range:
  "0 \<le> h \<Longrightarrow> h < int (length xs) \<Longrightarrow> py_index xs h = Some (nat h)"
  by (simp add: py_index_def)

lemma set_bits_total:
  "\<forall>h \<in> set hs. 0 \<le> h \<and> h < int (length bits) \<Longrightarrow>
   \<exists>bits'. set_bits bits hs = Some bits' \<and> length bits' = length bits
     \<and> (\<forall>h \<in> set hs. bit_set bits' h) \<and> (\<forall>h. bit_set bits h \<longrightarrow> bit_set bits' h)"
proof (induction hs arbitrary: bits)
  case Nil
  then show ?case by simp
next
  case (Cons h hs)
  let ?b = "bits[nat h := 1]"
  from Cons.prems have h: "0 \<le> h" "h < int (length bits)" by simp_all
  have "\<forall>h \<in> set hs. 0 \<le> h \<and> h < int (length ?b)" using Cons.prems by simp
  from Cons.IH[OF this] obtain bits' where
    b: "set_bits ?b hs = Some bits'" "length bits' = length ?b"
       "\<forall>h \<in> set hs. bit_set bits' h" "\<forall>h. bit_set ?b h \<longrightarrow> bit_set bits' h"
    by blast
  have hset: "bit_set ?b h" using h by (simp add: bit_set_def)
  have mono: "bit_set bits g \<Longrightarrow> bit_set ?b g" for g
    by (cases "nat g = nat h") (auto simp: bit_set_def)
  show ?case using b h hset mono by (auto simp: py_index_in_range)
qed

lemma all_bits_set:
  "\<forall>h \<in> set hs. bit_set bits h \<Longrightarrow> all_bits bits hs = Some True"
  by (induction hs) (auto simp: bit_set_def py_index_in_range)

lemma hashes_in_range:
  assumes "bf_ok bf"
  shows "\<exists>hs. hashes md5 bf item = Some hs \<and> (\<forall>h \<in> set hs. 0 \<le> h \<and> h < int (length (bit_array bf)))"
  using assms by (auto simp: hashes_def bf_ok_def)

lemma hashes_bit_array_irrelevant:
  "hashes md5 (bf\<lparr>bit_array := bits\<rparr>) item = hashes md5 bf item"
  by (simp add: hashes_def)

lemma covers_contains: "covers md5 bf item \<Longrightarrow> contains md5 bf item = Some True"
  by (auto simp: covers_def contains_def all_bits_set)

lemma add_step:
  assumes "bf_ok bf"
  shows "\<exists>bf'. add md5 bf item = Some bf' \<and> bf_ok bf' \<and> covers md5 bf' item
           \<and> (\<forall>x. covers md5 bf x \<longrightarrow> covers md5 bf' x)"
proof -
  from hashes_in_range[OF assms] obtain hs where
    hs: "hashes md5 bf item = Some hs" "\<forall>h \<in> set hs. 0 \<le> h \<and> h < int (length (bit_array bf))"
    by blast
  from set_bits_total[OF hs(2)] obtain bits' where
    b: "set_bits (bit_array bf) hs = Some bits'" "length bits' = length (bit_array bf)"
       "\<forall>h \<in> set hs. bit_set bits' h" "\<forall>h. bit_set (bit_array bf) h \<longrightarrow> bit_set bits' h"
    by blast
  let ?bf = "bf\<lparr>bit_array := bits'\<rparr>"
  have "add md5 bf item = Some ?bf" using hs(1) b(1) by (simp add: add_def)
  moreover have "bf_ok ?bf" using assms b(2) by (simp add: bf_ok_def)
  moreover have "covers md5 ?bf item"
    using hs(1) b(3) by (simp add: covers_def hashes_bit_array_irrelevant)
  moreover have "covers md5 bf x \<longrightarrow> covers md5 ?bf x" for x
    using b(4) by (auto simp: covers_def hashes_bit_array_irrelevant)
  ultimately show ?thesis by blast
qed

lemma add_all_covers:
  assumes "bf_ok bf"
  shows "\<exists>bf'. add_all md5 bf xs = Some bf' \<and> bf_ok bf'
           \<and> (\<forall>x \<in> set xs. covers md5 bf' x) \<and> (\<forall>x. covers md5 bf x \<longrightarrow> covers md5 bf' x)"
  using assms
proof (induction xs arbitrary: bf)
  case Nil
  then show ?case by simp
next
  case (Cons x xs)
  from add_step[OF Cons.prems, of md5 x] obtain bf1 where
    s: "add md5 bf x = Some bf1" "bf_ok bf1" "covers md5 bf1 x"
       "\<forall>y. covers md5 bf y \<longrightarrow> covers md5 bf1 y"
    by blast
  from Cons.IH[OF s(2)] obtain bf' where
    r: "add_all md5 bf1 xs = Some bf'" "bf_ok bf'" "\<forall>y \<in> set xs. covers md5 bf' y"
       "\<forall>y. covers md5 bf1 y \<longrightarrow> covers md5 bf' y"
    by blast
  show ?case using s r by auto
qed

lemma BloomFilter_ok: "1 \<le> sz \<Longrightarrow> bf_ok (BloomFilter sz hc)"
  by (simp add: bf_ok_def BloomFilter_def)

text \<open>Claim C7 (Bloom soundness). A filter is built with \<open>size \<ge> 1\<close> and any
  \<open>hash_count\<close> (a negative count hashes nothing). Every sequence of \<open>add\<close> calls then
  runs without an exception, and in the filter it produces the membership test answers
  \<open>True\<close> for every item of the sequence, wherever in the sequence it was added: no
  false negative, also after further adds.\<close>

theorem bloom_soundness:
  assumes "1 \<le> sz"
  shows "\<exists>bf. add_all md5 (BloomFilter sz hc) xs = Some bf
           \<and> (\<forall>x \<in> set xs. contains md5 bf x = Some True)"
  using add_all_covers[OF BloomFilter_ok[OF assms], of md5 hc xs] covers_contains
  by blast

theorem bloom_soundness_witness:
  "\<exists>bf. add_all length (BloomFilter 100 3) [''hello'', ''world''] = Some bf
      \<and> contains length bf ''hello'' = Some True
      \<and> contains length bf ''world'' = Some True"
  using bloom_soundness[of 100 length 3 "[''hello'', ''world'']"] by simp
section \<open>B-tree: search, update, split and insertion\<close>

subsection \<open>The two scans\<close>

lemma scan_up_le: "scan_up k ks \<le> length ks"
  by (simp add: scan_up_def length_takeWhile_le)

lemma scan_up_less: "j < scan_up k ks \<Longrightarrow> ks ! j < k"
  unfolding scan_up_def
  by (metis nth_mem set_takeWhileD takeWhile_nth)

lemma scan_up_stop: "scan_up k ks < length ks \<Longrightarrow> \<not> ks ! scan_up k ks < k"
  unfolding scan_up_def by (rule nth_length_takeWhile)

lemma scan_down_split:
  "take (scan_down k ks) ks = rev (dropWhile (\<lambda>x. k < x) (rev ks))"
  "drop (scan_down k ks) ks = rev (takeWhile (\<lambda>x. k < x) (rev ks))"
proof -
  let ?P = "\<lambda>x. k < x"
  have "ks = rev (dropWhile ?P (rev ks)) @ rev (takeWhile ?P (rev ks))"
    by (metis rev_append rev_rev_ident takeWhile_dropWhile_id)
  moreover have "length (rev (dropWhile ?P (rev ks))) = scan_down k ks"
    by (simp add: scan_down_def)
  ultimately show "take (scan_down k ks) ks = rev (dropWhile ?P (rev ks))"
    and "drop (scan_down k ks) ks = rev (takeWhile ?P (rev ks))"
    by (metis append_eq_conv_conj)+
qed

lemma scan_down_le: "scan_down k ks \<le> length ks"
  by (metis scan_down_def length_dropWhile_le length_rev)

lemma scan_down_right: "x \<in> set (drop (scan_down k ks) ks) \<Longrightarrow> k < x"
  by (simp add: scan_down_split(2)) (metis set_takeWhileD)

lemma scan_down_left: "0 < scan_down k ks \<Longrightarrow> \<not> k < ks ! (scan_down k ks - 1)"
proof -
  let ?P = "\<lambda>x. k < x"
  let ?d = "dropWhile ?P (rev ks)"
  assume pos: "0 < scan_down k ks"
  then have ne: "?d \<noteq> []" by (simp add: scan_down_def)
  then have "\<not> ?P (hd ?d)" by (rule hd_dropWhile)
  moreover have "hd ?d = last (rev ?d)" using ne by (simp add: last_rev)
  moreover have "last (rev ?d) = last (take (scan_down k ks) ks)"
    by (simp add: scan_down_split(1))
  moreover have "last (take (scan_down k ks) ks) = ks ! (scan_down k ks - 1)"
  proof -
    let ?p = "scan_down k ks"
    have len: "length (take ?p ks) = ?p" using scan_down_le[of k ks] by simp
    then have "take ?p ks \<noteq> []" using pos by auto
    then have "last (take ?p ks) = take ?p ks ! (?p - 1)" using len by (simp add: last_conv_nth)
    also have "\<dots> = ks ! (?p - 1)" using pos by simp
    finally show ?thesis .
  qed
  ultimately show ?thesis by simp
qed

subsection \<open>Interleaving\<close>

lemma interleave_post:
  "length cs = Suc (length es) \<Longrightarrow> interleave cs es = hd cs @ post es (tl cs)"
proof (induction es arbitrary: cs)
  case Nil
  then show ?case by (cases cs) (auto simp: post_def)
next
  case (Cons e es)
  then obtain c cs' where cs: "cs = c # cs'" "length cs' = Suc (length es)"
    by (cases cs) auto
  then obtain c1 cs2 where cs': "cs' = c1 # cs2" by (cases cs') auto
  show ?case using Cons.IH[OF cs(2)] cs cs' by (simp add: post_def)
qed

lemma interleave_decomp:
  "length cs = Suc (length es) \<Longrightarrow> i \<le> length es \<Longrightarrow>
   interleave cs es = pre (take i cs) (take i es) @ cs ! i @ post (drop i es) (drop (Suc i) cs)"
proof (induction i arbitrary: cs es)
  case 0
  then obtain c cs' where "cs = c # cs'" by (cases cs) auto
  then show ?case using interleave_post[OF 0(1)] by (simp add: pre_def drop_Suc)
next
  case (Suc i)
  then obtain e es' where es: "es = e # es'" by (cases es) auto
  with Suc obtain c cs' where cs: "cs = c # cs'" by (cases cs) auto
  have "length cs' = Suc (length es')" "i \<le> length es'" using Suc.prems es cs by auto
  from Suc.IH[OF this] show ?case using es cs by (simp add: pre_def)
qed

lemma pre_snoc:
  "i < length es \<Longrightarrow> i < length cs \<Longrightarrow>
   pre (take (Suc i) cs) (take (Suc i) es) = pre (take i cs) (take i es) @ cs ! i @ [es ! i]"
  by (simp add: pre_def take_Suc_conv_app_nth zip_append)

lemma post_cons:
  "i < length es \<Longrightarrow> j < length cs \<Longrightarrow>
   post (drop i es) (drop j cs) = es ! i # cs ! j @ post (drop (Suc i) es) (drop (Suc j) cs)"
  by (simp add: post_def Cons_nth_drop_Suc[symmetric])

lemma ssorted_append:
  "ssorted (xs @ ys) \<longleftrightarrow> ssorted xs \<and> ssorted ys \<and> (\<forall>x \<in> set xs. \<forall>y \<in> set ys. fst x < fst y)"
  by (auto simp: sorted_wrt_append)

lemma ssorted_Cons:
  "ssorted (x # ys) \<longleftrightarrow> ssorted ys \<and> (\<forall>y \<in> set ys. fst x < fst y)"
  by auto

lemma descend_left:
  assumes len: "length cs = Suc (length es)" and i: "i \<le> length es"
    and srt: "ssorted (interleave cs es)"
    and lt: "\<forall>j<i. fst (es ! j) < k"
  shows "\<forall>a \<in> set (pre (take i cs) (take i es)). fst a < k"
proof (cases i)
  case 0
  then show ?thesis by (simp add: pre_def)
next
  case (Suc j)
  have j: "j < length es" "j < length cs" using Suc i len by auto
  let ?P = "pre (take j cs) (take j es)"
  let ?R = "post (drop i es) (drop (Suc i) cs)"
  have "interleave cs es = (?P @ cs ! j) @ [es ! j] @ (cs ! i @ ?R)"
    using interleave_decomp[OF len i] pre_snoc[OF j] Suc by simp
  with srt have "\<forall>a \<in> set (?P @ cs ! j). fst a < fst (es ! j)"
    by (simp only: ssorted_append) auto
  moreover have "fst (es ! j) < k" using lt Suc by simp
  ultimately have "\<forall>a \<in> set (?P @ cs ! j @ [es ! j]). fst a < k"
    by (auto intro: less_trans)
  then show ?thesis using pre_snoc[OF j] Suc by simp
qed

lemma descend_right:
  assumes len: "length cs = Suc (length es)" and i: "i \<le> length es"
    and srt: "ssorted (interleave cs es)"
    and gt: "i < length es \<longrightarrow> k < fst (es ! i)"
  shows "\<forall>b \<in> set (post (drop i es) (drop (Suc i) cs)). k < fst b"
proof (cases "i < length es")
  case False
  then show ?thesis using i by (simp add: post_def)
next
  case True
  then have si: "Suc i < length cs" using len by simp
  let ?R = "cs ! Suc i @ post (drop (Suc i) es) (drop (Suc (Suc i)) cs)"
  have eq: "post (drop i es) (drop (Suc i) cs) = es ! i # ?R"
    using post_cons[OF True si] by simp
  have "interleave cs es = (pre (take i cs) (take i es) @ cs ! i) @ es ! i # ?R"
    using interleave_decomp[OF len i] eq by simp
  with srt have "\<forall>b \<in> set ?R. fst (es ! i) < fst b"
    by (simp only: ssorted_append ssorted_Cons) auto
  moreover have "k < fst (es ! i)" using gt True by simp
  ultimately have "\<forall>b \<in> set (es ! i # ?R). k < fst b"
    by (auto intro: less_trans)
  then show ?thesis using eq by simp
qed

lemma found_left:
  assumes len: "length cs = Suc (length es)" and i: "i < length es"
    and srt: "ssorted (interleave cs es)"
  shows "\<forall>a \<in> set (pre (take i cs) (take i es) @ cs ! i). fst a < fst (es ! i)"
proof -
  have si: "Suc i < length cs" using len i by simp
  let ?R = "cs ! Suc i @ post (drop (Suc i) es) (drop (Suc (Suc i)) cs)"
  have "interleave cs es = (pre (take i cs) (take i es) @ cs ! i) @ es ! i # ?R"
    using interleave_decomp[OF len, of i] post_cons[OF i si] i by simp
  with srt show ?thesis by (simp only: ssorted_append ssorted_Cons) auto
qed

subsection \<open>Lookups in key-sorted association lists\<close>

lemma map_of_mid:
  "\<forall>a \<in> set A. fst a \<noteq> k \<Longrightarrow> \<forall>b \<in> set B. fst b \<noteq> k \<Longrightarrow> map_of (A @ C @ B) k = map_of C k"
proof -
  assume a: "\<forall>a \<in> set A. fst a \<noteq> k" and b: "\<forall>b \<in> set B. fst b \<noteq> k"
  have "map_of A k = None" "map_of B k = None"
    using a b by (auto simp: map_of_eq_None_iff)
  then show ?thesis by (simp add: map_add_def split: option.splits)
qed

lemma map_of_found:
  "\<forall>a \<in> set A. fst a \<noteq> k \<Longrightarrow> map_of (A @ (k, v) # B) k = Some v"
proof -
  assume a: "\<forall>a \<in> set A. fst a \<noteq> k"
  have "map_of A k = None" using a by (auto simp: map_of_eq_None_iff)
  then show ?thesis by (simp add: map_add_def)
qed

lemma map_of_replace:
  assumes "\<forall>a \<in> set A. fst a \<noteq> k"
  shows "map_of (A @ (k, v) # B) = (map_of (A @ (k, w) # B))(k \<mapsto> v)"
proof
  fix q
  have "map_of A k = None" using assms by (auto simp: map_of_eq_None_iff)
  then show "map_of (A @ (k, v) # B) q = ((map_of (A @ (k, w) # B))(k \<mapsto> v)) q"
    by (cases "q = k") (simp_all add: map_add_def split: option.splits)
qed

lemma map_of_insert_mid:
  assumes "\<forall>a \<in> set A. fst a \<noteq> k"
  shows "map_of (A @ (k, v) # B) = (map_of (A @ B))(k \<mapsto> v)"
proof
  fix q
  have "map_of A k = None" using assms by (auto simp: map_of_eq_None_iff)
  then show "map_of (A @ (k, v) # B) q = ((map_of (A @ B))(k \<mapsto> v)) q"
    by (cases "q = k") (simp_all add: map_add_def split: option.splits)
qed

lemma map_of_lift:
  assumes "\<forall>a \<in> set A. fst a \<noteq> k" and "map_of C' = (map_of C)(k \<mapsto> v)"
  shows "map_of (A @ C' @ B) = (map_of (A @ C @ B))(k \<mapsto> v)"
proof
  fix q
  have "map_of A k = None" using assms(1) by (auto simp: map_of_eq_None_iff)
  then show "map_of (A @ C' @ B) q = ((map_of (A @ C @ B))(k \<mapsto> v)) q"
    using assms(2) by (cases "q = k") (simp_all add: map_add_def)
qed

lemma ssorted_lift:
  assumes "ssorted (A @ C @ B)" and "ssorted C'"
    and "fst ` set C' \<subseteq> insert k (fst ` set C)"
    and "\<forall>a \<in> set A. fst a < k" and "\<forall>b \<in> set B. k < fst b"
  shows "ssorted (A @ C' @ B)"
proof -
  from assms(1) have 1: "ssorted A" "ssorted B"
    "\<forall>x \<in> set A. \<forall>y \<in> set C. fst x < fst y"
    "\<forall>x \<in> set A. \<forall>y \<in> set B. fst x < fst y"
    "\<forall>x \<in> set C. \<forall>y \<in> set B. fst x < fst y"
    by (auto simp: sorted_wrt_append)
  have 2: "\<forall>x \<in> set A. \<forall>y \<in> set C'. fst x < fst y"
  proof (intro ballI)
    fix x y assume x: "x \<in> set A" and y: "y \<in> set C'"
    from y assms(3) have "fst y = k \<or> fst y \<in> fst ` set C" by auto
    then show "fst x < fst y" using x 1(3) assms(4) by force
  qed
  have 3: "\<forall>x \<in> set C'. \<forall>y \<in> set B. fst x < fst y"
  proof (intro ballI)
    fix x y assume x: "x \<in> set C'" and y: "y \<in> set B"
    from x assms(3) have "fst x = k \<or> fst x \<in> fst ` set C" by auto
    then show "fst x < fst y" using y 1(5) assms(5) by force
  qed
  show ?thesis using 1 2 3 assms(2) by (auto simp: sorted_wrt_append)
qed

subsection \<open>Nodes\<close>

lemma set_interleave_es:
  "length cs = Suc (length es) \<Longrightarrow> set es \<subseteq> set (interleave cs es)"
proof (induction es arbitrary: cs)
  case Nil
  then show ?case by simp
next
  case (Cons e es)
  then obtain c cs' where cs: "cs = c # cs'" "length cs' = Suc (length es)"
    by (cases cs) auto
  show ?case using Cons.IH[OF cs(2)] cs by auto
qed

lemma interleave_es_sorted:
  "length cs = Suc (length es) \<Longrightarrow> ssorted (interleave cs es) \<Longrightarrow> ssorted es"
proof (induction es arbitrary: cs)
  case Nil
  then show ?case by simp
next
  case (Cons e es)
  then obtain c cs' where cs: "cs = c # cs'" "length cs' = Suc (length es)"
    by (cases cs) auto
  from Cons.prems(2) cs have s: "ssorted (interleave cs' es)"
    "\<forall>y \<in> set (interleave cs' es). fst e < fst y"
    by (auto simp: sorted_wrt_append)
  show ?case using Cons.IH[OF cs(2) s(1)] s(2) set_interleave_es[OF cs(2)] by auto
qed

lemma wf_sel:
  "wf x \<longleftrightarrow> length (vals x) = length (keys x) \<and>
     (if leaf x then child x = []
      else length (child x) = Suc (length (keys x)) \<and> (\<forall>c \<in> set (child x). wf c))"
  by (cases x) simp

lemma wf_len: "wf x \<Longrightarrow> length (vals x) = length (keys x)"
  by (cases x) simp

lemma wf_leaf: "wf x \<Longrightarrow> leaf x \<Longrightarrow> child x = []"
  by (cases x) simp

lemma wf_inner: "wf x \<Longrightarrow> \<not> leaf x \<Longrightarrow> length (child x) = Suc (length (keys x))"
  by (cases x) simp

lemma wf_child: "wf x \<Longrightarrow> \<not> leaf x \<Longrightarrow> c \<in> set (child x) \<Longrightarrow> wf c"
  by (cases x) simp

lemma inorder_sel:
  "inorder x = (if leaf x then zip (keys x) (vals x)
                else interleave (map inorder (child x)) (zip (keys x) (vals x)))"
  by (cases x) simp

lemma keys_sorted:
  assumes "wf x" and "ssorted (inorder x)"
  shows "sorted_wrt (<) (keys x)"
proof -
  have len: "length (vals x) = length (keys x)" using assms(1) by (rule wf_len)
  have "ssorted (zip (keys x) (vals x))"
  proof (cases "leaf x")
    case True
    then show ?thesis using assms(2) by (simp add: inorder_sel)
  next
    case False
    then have "length (map inorder (child x)) = Suc (length (zip (keys x) (vals x)))"
      using wf_inner[OF assms(1)] len by simp
    from interleave_es_sorted[OF this] show ?thesis using assms(2) False
      by (simp add: inorder_sel)
  qed
  then show ?thesis using len by simp
qed

text \<open>The in-order list around key number \<open>i\<close> of a node.\<close>

lemma inorder_at_key:
  assumes wf: "wf x" and srt: "ssorted (inorder x)" and i: "i < length (keys x)"
  shows "\<exists>L R. inorder x = L @ (keys x ! i, vals x ! i) # R
           \<and> (\<forall>a \<in> set L. fst a < keys x ! i)
           \<and> (\<forall>v. inorder (Node (leaf x) (keys x) ((vals x)[i := v]) (child x))
                    = L @ (keys x ! i, v) # R)"
proof -
  let ?es = "zip (keys x) (vals x)"
  have len: "length (vals x) = length (keys x)" using wf by (rule wf_len)
  have ies: "i < length ?es" using i len by simp
  have esi: "?es ! i = (keys x ! i, vals x ! i)" using i len by simp
  have upd: "zip (keys x) ((vals x)[i := v]) = ?es[i := (keys x ! i, v)]" for v
    by (simp add: update_zip)
  show ?thesis
  proof (cases "leaf x")
    case True
    let ?L = "take i ?es" and ?R = "drop (Suc i) ?es"
    have 1: "inorder x = ?L @ (keys x ! i, vals x ! i) # ?R"
      using True id_take_nth_drop[OF ies, symmetric] esi by (simp add: inorder_sel)
    have 2: "\<forall>a \<in> set ?L. fst a < keys x ! i"
      using srt unfolding 1 by (auto simp: sorted_wrt_append)
    have 3: "inorder (Node (leaf x) (keys x) ((vals x)[i := v]) (child x))
               = ?L @ (keys x ! i, v) # ?R" for v
      using True upd[of v] upd_conv_take_nth_drop[OF ies] by simp
    show ?thesis by (intro exI[of _ ?L] exI[of _ ?R] conjI allI 1 2 3)
  next
    case False
    let ?cs = "map inorder (child x)"
    have lcs: "length ?cs = Suc (length ?es)" using wf_inner[OF wf False] len by simp
    have si: "Suc i < length ?cs" using lcs ies by simp
    let ?L = "pre (take i ?cs) (take i ?es) @ ?cs ! i"
    let ?R = "?cs ! Suc i @ post (drop (Suc i) ?es) (drop (Suc (Suc i)) ?cs)"
    have io: "inorder x = interleave ?cs ?es" using False by (simp add: inorder_sel)
    have 1: "inorder x = ?L @ (keys x ! i, vals x ! i) # ?R"
      using interleave_decomp[OF lcs, of i] post_cons[OF ies si] ies esi io by simp
    have 2: "\<forall>a \<in> set ?L. fst a < keys x ! i"
      using found_left[OF lcs ies] srt io esi by simp
    have 3: "inorder (Node (leaf x) (keys x) ((vals x)[i := v]) (child x))
               = ?L @ (keys x ! i, v) # ?R" for v
    proof -
      let ?es' = "?es[i := (keys x ! i, v)]"
      have l': "length ?cs = Suc (length ?es')" using lcs by simp
      have i': "i < length ?es'" using ies by simp
      have "inorder (Node (leaf x) (keys x) ((vals x)[i := v]) (child x)) = interleave ?cs ?es'"
        using False upd[of v] by simp
      also have "\<dots> = pre (take i ?cs) (take i ?es') @ ?cs ! i
                        @ post (drop i ?es') (drop (Suc i) ?cs)"
        using interleave_decomp[OF l', of i] i' by simp
      also have "post (drop i ?es') (drop (Suc i) ?cs)
                   = ?es' ! i # ?cs ! Suc i @ post (drop (Suc i) ?es') (drop (Suc (Suc i)) ?cs)"
        by (rule post_cons[OF i' si])
      finally show ?thesis using ies by simp
    qed
    show ?thesis by (intro exI[of _ ?L] exI[of _ ?R] conjI allI 1 2 3)
  qed
qed

text \<open>The in-order list around child number \<open>i\<close> of an inner node.\<close>

lemma inorder_descend:
  assumes wf: "wf x" and inner: "\<not> leaf x" and i: "i \<le> length (keys x)"
  shows "\<exists>A B. inorder x = A @ inorder (child x ! i) @ B
           \<and> (\<forall>c'. inorder (Node (leaf x) (keys x) (vals x) ((child x)[i := c']))
                     = A @ inorder c' @ B)
           \<and> (ssorted (inorder x) \<longrightarrow> (\<forall>j<i. keys x ! j < k)
                \<longrightarrow> (i < length (keys x) \<longrightarrow> k < keys x ! i)
                \<longrightarrow> (\<forall>a \<in> set A. fst a < k) \<and> (\<forall>b \<in> set B. k < fst b))"
proof -
  let ?es = "zip (keys x) (vals x)"
  let ?cs = "map inorder (child x)"
  have len: "length (vals x) = length (keys x)" using wf by (rule wf_len)
  have lcs: "length ?cs = Suc (length ?es)" using wf_inner[OF wf inner] len by simp
  have ies: "i \<le> length ?es" using i len by simp
  have ics: "i < length (child x)" using lcs ies len by simp
  let ?A = "pre (take i ?cs) (take i ?es)"
  let ?B = "post (drop i ?es) (drop (Suc i) ?cs)"
  have io: "inorder x = interleave ?cs ?es" using inner by (simp add: inorder_sel)
  have 1: "inorder x = ?A @ inorder (child x ! i) @ ?B"
    using interleave_decomp[OF lcs ies] io ics by simp
  have 2: "inorder (Node (leaf x) (keys x) (vals x) ((child x)[i := c'])) = ?A @ inorder c' @ ?B"
    for c'
  proof -
    let ?cs' = "map inorder ((child x)[i := c'])"
    have l': "length ?cs' = Suc (length ?es)" using lcs by simp
    have "inorder (Node (leaf x) (keys x) (vals x) ((child x)[i := c'])) = interleave ?cs' ?es"
      using inner by simp
    then show ?thesis using interleave_decomp[OF l' ies] ics by (simp add: map_update)
  qed
  have 3: "ssorted (inorder x) \<longrightarrow> (\<forall>j<i. keys x ! j < k)
                \<longrightarrow> (i < length (keys x) \<longrightarrow> k < keys x ! i)
                \<longrightarrow> (\<forall>a \<in> set ?A. fst a < k) \<and> (\<forall>b \<in> set ?B. k < fst b)"
  proof (intro impI)
    assume srt: "ssorted (inorder x)" and lt: "\<forall>j<i. keys x ! j < k"
      and gt: "i < length (keys x) \<longrightarrow> k < keys x ! i"
    have "\<forall>j<i. fst (?es ! j) < k" using lt i len by simp
    moreover have "i < length ?es \<longrightarrow> k < fst (?es ! i)" using gt len by simp
    ultimately show "(\<forall>a \<in> set ?A. fst a < k) \<and> (\<forall>b \<in> set ?B. k < fst b)"
      using descend_left[OF lcs ies, of k] descend_right[OF lcs ies, of k] srt io by simp
  qed
  show ?thesis by (intro exI[of _ ?A] exI[of _ ?B] conjI allI 1 2 3)
qed

lemma child_inv:
  assumes "wf x" and "\<not> leaf x" and "ssorted (inorder x)" and "i < length (child x)"
  shows "wf (child x ! i) \<and> ssorted (inorder (child x ! i))"
proof -
  have i: "i \<le> length (keys x)" using wf_inner[OF assms(1,2)] assms(4) by simp
  from inorder_descend[OF assms(1,2) i] obtain A B where
    "inorder x = A @ inorder (child x ! i) @ B" by blast
  then have "ssorted (inorder (child x ! i))" using assms(3) by (simp add: sorted_wrt_append)
  moreover have "wf (child x ! i)" using wf_child[OF assms(1,2)] assms(4) by simp
  ultimately show ?thesis by simp
qed

lemma scan_up_absent:
  assumes "sorted_wrt (<) ks" and "\<not> (scan_up k ks < length ks \<and> k = ks ! scan_up k ks)"
  shows "k \<notin> set ks"
proof
  assume "k \<in> set ks"
  then obtain j where j: "j < length ks" "ks ! j = k" by (auto simp: in_set_conv_nth)
  let ?i = "scan_up k ks"
  show False
  proof (cases "j < ?i")
    case True
    then show False using scan_up_less[of j k ks] j by simp
  next
    case False
    then have i: "?i < length ks" using j by simp
    then have nlt: "\<not> ks ! ?i < k" by (rule scan_up_stop)
    show False
    proof (cases "j = ?i")
      case True
      then show False using assms(2) i j by simp
    next
      case False
      with \<open>\<not> j < ?i\<close> have "?i < j" by simp
      then have "ks ! ?i < ks ! j" using assms(1) j(1) by (simp add: sorted_wrt_nth_less)
      then show False using nlt j by simp
    qed
  qed
qed

lemma scan_up_gt:
  assumes "scan_up k ks < length ks" and "k \<noteq> ks ! scan_up k ks"
  shows "k < ks ! scan_up k ks"
  using scan_up_stop[OF assms(1)] assms(2) by auto

theorem search_node_correct:
  "wf x \<Longrightarrow> ssorted (inorder x) \<Longrightarrow> search_node x k = Some (map_of (inorder x) k)"
proof (induction x k rule: search_node.induct)
  case (1 x k)
  let ?i = "scan_up k (keys x)"
  have len: "length (vals x) = length (keys x)" using "1.prems"(1) by (rule wf_len)
  show ?case
  proof (cases "?i < length (keys x) \<and> k = keys x ! ?i")
    case True
    then have res: "search_node x k = Some (Some (vals x ! ?i))"
      using len by (subst search_node.simps) (simp add: py_nth_def)
    from True inorder_at_key[OF "1.prems", of ?i] obtain L R where
      "inorder x = L @ (k, vals x ! ?i) # R" "\<forall>a \<in> set L. fst a < k"
      by auto
    then have "map_of (inorder x) k = Some (vals x ! ?i)"
      using map_of_found[of L k] by auto
    then show ?thesis using res by simp
  next
    case nf: False
    show ?thesis
    proof (cases "leaf x")
      case True
      then have res: "search_node x k = Some None"
        using nf by (subst search_node.simps) (auto simp: Let_def)
      have "k \<notin> set (keys x)" using scan_up_absent[OF keys_sorted[OF "1.prems"] nf] .
      moreover have "fst ` set (zip (keys x) (vals x)) = set (keys x)"
        using len by (metis map_fst_zip set_map)
      ultimately have "map_of (inorder x) k = None"
        using True by (simp add: inorder_sel map_of_eq_None_iff)
      then show ?thesis using res by simp
    next
      case False
      have i: "?i \<le> length (keys x)" by (rule scan_up_le)
      then have ics: "?i < length (child x)" using wf_inner[OF "1.prems"(1) False] by simp
      let ?c = "child x ! ?i"
      have res: "search_node x k = search_node ?c k"
        using nf False ics by (subst search_node.simps) (auto simp: Let_def py_nth_def)
      have cinv: "wf ?c" "ssorted (inorder ?c)"
        using child_inv[OF "1.prems"(1) False "1.prems"(2) ics] by simp_all
      have ih: "search_node ?c k = Some (map_of (inorder ?c) k)"
        using "1.IH"[OF refl nf False _ cinv] ics by (simp add: py_nth_def)
      have lt: "\<forall>j<?i. keys x ! j < k" using scan_up_less by blast
      have gt: "?i < length (keys x) \<longrightarrow> k < keys x ! ?i" using scan_up_gt nf by blast
      from inorder_descend[OF "1.prems"(1) False i, of k] "1.prems"(2) lt gt obtain A B where
        ab: "inorder x = A @ inorder ?c @ B" "\<forall>a \<in> set A. fst a < k" "\<forall>b \<in> set B. k < fst b"
        by blast
      have "map_of (inorder x) k = map_of (inorder ?c) k"
        unfolding ab(1) using ab(2,3) by (intro map_of_mid) auto
      then show ?thesis using res ih by simp
    qed
  qed
qed

lemma wf_update_child:
  assumes "wf x" and "\<not> leaf x" and "wf c'"
  shows "wf (Node (leaf x) (keys x) (vals x) ((child x)[i := c']))"
proof -
  have "\<forall>c \<in> set ((child x)[i := c']). wf c"
    using wf_child[OF assms(1,2)] assms(3) set_update_subset_insert[of "child x" i c'] by auto
  then show ?thesis using wf_len[OF assms(1)] wf_inner[OF assms(1,2)] assms(2) by simp
qed

lemma lift_child_update:
  assumes wf: "wf x" and inner: "\<not> leaf x" and srt: "ssorted (inorder x)"
    and i: "i \<le> length (keys x)"
    and lt: "\<forall>j<i. keys x ! j < k"
    and gt: "i < length (keys x) \<longrightarrow> k < keys x ! i"
    and rel: "upd_rel (child x ! i) c' k v"
  shows "upd_rel x (Node (leaf x) (keys x) (vals x) ((child x)[i := c'])) k v"
proof -
  let ?x' = "Node (leaf x) (keys x) (vals x) ((child x)[i := c'])"
  let ?c = "child x ! i"
  from inorder_descend[OF wf inner i, of k] srt lt gt obtain A B where
    ab: "inorder x = A @ inorder ?c @ B" "inorder ?x' = A @ inorder c' @ B"
      "\<forall>a \<in> set A. fst a < k" "\<forall>b \<in> set B. k < fst b"
    by blast
  from rel have c': "wf c'" "ssorted (inorder c')"
    "fst ` set (inorder c') = insert k (fst ` set (inorder ?c))"
    "map_of (inorder c') = (map_of (inorder ?c))(k \<mapsto> v)"
    by (simp_all add: upd_rel_def)
  have 1: "wf ?x'" by (rule wf_update_child[OF wf inner c'(1)])
  have 2: "ssorted (inorder ?x')"
    unfolding ab(2) using ssorted_lift[of A "inorder ?c" B "inorder c'" k] srt ab(1,3,4) c'(2,3)
    by simp
  have 3: "fst ` set (inorder ?x') = insert k (fst ` set (inorder x))"
    unfolding ab(1,2) using c'(3) by (auto simp: image_Un)
  have ne: "\<forall>a \<in> set A. fst a \<noteq> k" using ab(3) by auto
  have 4: "map_of (inorder ?x') = (map_of (inorder x))(k \<mapsto> v)"
    unfolding ab(1,2) by (rule map_of_lift[OF ne c'(4)])
  show ?thesis unfolding upd_rel_def by (intro conjI 1 2 3 4)
qed

lemma descend_mem:
  assumes wf: "wf x" and inner: "\<not> leaf x" and srt: "ssorted (inorder x)"
    and i: "i \<le> length (keys x)"
    and lt: "\<forall>j<i. keys x ! j < k"
    and gt: "i < length (keys x) \<longrightarrow> k < keys x ! i"
  shows "k \<in> fst ` set (inorder x) \<longleftrightarrow> k \<in> fst ` set (inorder (child x ! i))"
proof -
  from inorder_descend[OF wf inner i, of k] srt lt gt obtain A B where
    ab: "inorder x = A @ inorder (child x ! i) @ B"
      "\<forall>a \<in> set A. fst a < k" "\<forall>b \<in> set B. k < fst b"
    by blast
  show ?thesis unfolding ab(1) using ab(2,3) by (auto simp: image_Un)
qed

theorem update_node_correct:
  "wf x \<Longrightarrow> ssorted (inorder x) \<Longrightarrow> k \<in> fst ` set (inorder x) \<Longrightarrow>
   \<exists>x'. update_node x k v = Some (x', True) \<and> upd_rel x x' k v"
proof (induction x k v rule: update_node.induct)
  case (1 x k v)
  let ?i = "scan_up k (keys x)"
  have len: "length (vals x) = length (keys x)" using "1.prems"(1) by (rule wf_len)
  show ?case
  proof (cases "?i < length (keys x) \<and> k = keys x ! ?i")
    case True
    let ?x' = "Node (leaf x) (keys x) ((vals x)[?i := v]) (child x)"
    have res: "update_node x k v = Some (?x', True)"
      using True len by (subst update_node.simps) (simp add: Let_def)
    from True inorder_at_key[OF "1.prems"(1,2), of ?i] obtain L R where
      lr: "inorder x = L @ (k, vals x ! ?i) # R" "\<forall>a \<in> set L. fst a < k"
        "inorder ?x' = L @ (k, v) # R"
      by auto
    have ne: "\<forall>a \<in> set L. fst a \<noteq> k" using lr(2) by auto
    have 1: "wf ?x'"
    proof (cases "leaf x")
      case True
      then show ?thesis using len wf_leaf[OF "1.prems"(1)] by simp
    next
      case False
      then show ?thesis
        using len wf_inner[OF "1.prems"(1)] wf_child[OF "1.prems"(1)] by simp
    qed
    have 2: "ssorted (inorder ?x')" using "1.prems"(2) unfolding lr(1,3) by simp
    have 3: "fst ` set (inorder ?x') = insert k (fst ` set (inorder x))"
      unfolding lr(1,3) by auto
    have 4: "map_of (inorder ?x') = (map_of (inorder x))(k \<mapsto> v)"
      unfolding lr(1,3) by (rule map_of_replace[OF ne])
    have "upd_rel x ?x' k v" unfolding upd_rel_def by (intro conjI 1 2 3 4)
    then show ?thesis using res by blast
  next
    case nf: False
    show ?thesis
    proof (cases "leaf x")
      case True
      have "k \<notin> set (keys x)"
        using scan_up_absent[OF keys_sorted[OF "1.prems"(1,2)] nf] .
      moreover have "fst ` set (zip (keys x) (vals x)) = set (keys x)"
        using len by (metis map_fst_zip set_map)
      ultimately show ?thesis using "1.prems"(3) True by (simp add: inorder_sel)
    next
      case False
      have i: "?i \<le> length (keys x)" by (rule scan_up_le)
      then have ics: "?i < length (child x)" using wf_inner[OF "1.prems"(1) False] by simp
      let ?c = "child x ! ?i"
      have cinv: "wf ?c" "ssorted (inorder ?c)"
        using child_inv[OF "1.prems"(1) False "1.prems"(2) ics] by simp_all
      have lt: "\<forall>j<?i. keys x ! j < k" using scan_up_less by blast
      have gt: "?i < length (keys x) \<longrightarrow> k < keys x ! ?i" using scan_up_gt nf by blast
      have mem: "k \<in> fst ` set (inorder ?c)"
        using descend_mem[OF "1.prems"(1) False "1.prems"(2) i lt gt] "1.prems"(3) by simp
      have nth: "py_nth (child x) ?i = Some ?c" using ics by (simp add: py_nth_def)
      from "1.IH"[OF refl nf False nth cinv mem] obtain c' where
        c': "update_node ?c k v = Some (c', True)" "upd_rel ?c c' k v"
        by blast
      let ?x' = "Node (leaf x) (keys x) (vals x) ((child x)[?i := c'])"
      have res: "update_node x k v = Some (?x', True)"
        using nf False nth c'(1) by (subst update_node.simps) (auto simp: Let_def)
      have "upd_rel x ?x' k v"
        by (rule lift_child_update[OF "1.prems"(1) False "1.prems"(2) i lt gt c'(2)])
      then show ?thesis using res by blast
    qed
  qed
qed

subsection \<open>Enumeration\<close>

lemma sequence_opt_Some: "sequence_opt (map (\<lambda>i. Some (f i)) xs) = Some (map f xs)"
  by (induction xs) simp_all

lemma concat_index_pre:
  "i \<le> length es \<Longrightarrow> i \<le> length rs \<Longrightarrow>
   concat (map (\<lambda>j. rs ! j @ [es ! j]) [0..<i]) = pre (take i rs) (take i es)"
proof (induction i)
  case 0
  then show ?case by (simp add: pre_def)
next
  case (Suc i)
  then show ?case using pre_snoc[of i es rs] by simp
qed

lemma interleave_index:
  assumes "length rs = Suc (length es)"
  shows "concat (map (\<lambda>i. rs ! i @ [es ! i]) [0..<length es]) @ rs ! length es
           = interleave rs es"
  using interleave_decomp[OF assms, of "length es"] concat_index_pre[of "length es" es rs] assms
  by (simp add: post_def)

theorem items_node_correct: "wf x \<Longrightarrow> items_node x = Some (inorder x)"
proof (induction x rule: items_node.induct)
  case (1 x)
  show ?case
  proof (cases "leaf x")
    case True
    then show ?thesis by (subst items_node.simps) (simp add: inorder_sel)
  next
    case False
    let ?n = "length (keys x)"
    let ?es = "zip (keys x) (vals x)"
    have len: "length (vals x) = ?n" using "1.prems" by (rule wf_len)
    have lcs: "length (child x) = Suc ?n" by (rule wf_inner[OF "1.prems" False])
    have guard: "\<not> (length (child x) \<le> ?n \<or> length (vals x) < ?n)" using len lcs by simp
    have ih: "items_node (child x ! i) = Some (inorder (child x ! i))" if "i \<in> set [0..<Suc ?n]" for i
    proof -
      have "i < length (child x)" using that lcs by auto
      then have "child x ! i \<in> set (child x)" by (rule nth_mem)
      then have "wf (child x ! i)" by (rule wf_child[OF "1.prems" False])
      then show ?thesis using "1.IH"[OF False guard that] by simp
    qed
    have "map (\<lambda>i. items_node (child x ! i)) [0..<Suc ?n]
            = map (\<lambda>i. Some (inorder (child x ! i))) [0..<Suc ?n]"
      using ih by (intro map_cong refl) 
    then have seq: "sequence_opt (map (\<lambda>i. items_node (child x ! i)) [0..<Suc ?n])
            = Some (map (\<lambda>i. inorder (child x ! i)) [0..<Suc ?n])"
      by (simp only: sequence_opt_Some)
    have "map (\<lambda>i. inorder (child x ! i)) [0..<length (child x)]
            = map inorder (map ((!) (child x)) [0..<length (child x)])"
      by (simp add: comp_def)
    also have "\<dots> = map inorder (child x)" by (simp only: map_nth)
    finally have rs: "map (\<lambda>i. inorder (child x ! i)) [0..<Suc ?n] = map inorder (child x)"
      using lcs by simp
    have es: "map (\<lambda>i. map inorder (child x) ! i @ [(keys x ! i, vals x ! i)]) [0..<?n]
                = map (\<lambda>i. map inorder (child x) ! i @ [?es ! i]) [0..<?n]"
      using len by (intro map_cong refl) simp
    have "items_node x
            = Some (concat (map (\<lambda>i. map inorder (child x) ! i @ [(keys x ! i, vals x ! i)]) [0..<?n])
                    @ map inorder (child x) ! ?n)"
      using False guard seq rs by (subst items_node.simps) (simp del: upt_Suc)
    also have "\<dots> = Some (interleave (map inorder (child x)) ?es)"
      unfolding es using interleave_index[of "map inorder (child x)" ?es] lcs len by simp
    finally show ?thesis using False by (simp add: inorder_sel)
  qed
qed

subsection \<open>Key-count bounds\<close>

lemma bounded_iff:
  "bounded t x \<longleftrightarrow>
     t - 1 \<le> int (length (keys x)) \<and> int (length (keys x)) \<le> 2 * t - 1 \<and> kids_bounded t x"
  by (cases x) (simp add: kids_bounded_def)

lemma kids_bounded_update:
  "kids_bounded t x \<Longrightarrow> bounded t c' \<Longrightarrow>
   kids_bounded t (Node lf ks vs ((child x)[i := c']))"
  unfolding kids_bounded_def using set_update_subset_insert[of "child x" i c'] by auto

subsection \<open>Splitting a full child\<close>

lemma py_index_nat: "n < length xs \<Longrightarrow> py_index xs (int n) = Some n"
  by (simp add: py_index_def)

lemma py_slice_nat: "py_slice xs (int a) (int b) = take (b - a) (drop a xs)"
proof -
  have "take (min b (length xs) - min a (length xs)) (drop (min a (length xs)) xs)
          = take (b - a) (drop a xs)"
  proof (cases "a \<le> length xs")
    case True
    then show ?thesis by (cases "b \<le> length xs") (simp_all add: min_def)
  next
    case False
    then show ?thesis by simp
  qed
  then show ?thesis by (simp add: py_slice_def py_bound_def Let_def)
qed

lemma insert_then_update:
  "i < length cs \<Longrightarrow> (py_insert cs (Suc i) z)[i := y] = take i cs @ y # z # drop (Suc i) cs"
  by (simp add: py_insert_def take_Suc_conv_app_nth list_update_append)

lemma full_degree:
  assumes "int (length ks) = 2 * t - 1"
  shows "\<exists>n. t = int (Suc n) \<and> length ks = 2 * n + 1"
proof -
  have "t \<ge> 1" using assms by linarith
  then have "t = int (Suc (nat (t - 1)))" by simp
  moreover have "length ks = 2 * nat (t - 1) + 1" using assms \<open>t \<ge> 1\<close> by linarith
  ultimately show ?thesis by blast
qed

lemma split_child_eq:
  assumes i: "i < length (child x)" and y: "y = child x ! i"
    and t: "t = int (Suc n)"
    and lk: "length (keys y) = 2 * n + 1" and lv: "length (vals y) = 2 * n + 1"
    and lc: "\<not> leaf y \<longrightarrow> length (child y) = 2 * n + 2"
  shows "split_child t x i =
     Some (Node (leaf x)
             (take i (keys x) @ keys y ! n # drop i (keys x))
             (take i (vals x) @ vals y ! n # drop i (vals x))
             (take i (child x)
                @ Node (leaf y) (take n (keys y)) (take n (vals y))
                    (if leaf y then child y else take (Suc n) (child y))
                # Node (leaf y) (drop (Suc n) (keys y)) (drop (Suc n) (vals y))
                    (if leaf y then [] else drop (Suc n) (child y))
                # drop (Suc i) (child x)))"
proof -
  have a: "t - 1 = int n" "2 * t - 1 = int (2 * n + 1)" "2 * t = int (2 * n + 2)"
    "(0::int) = int 0"
    using t by simp_all
  have s1: "py_slice (keys y) t (2 * t - 1) = drop (Suc n) (keys y)"
    "py_slice (vals y) t (2 * t - 1) = drop (Suc n) (vals y)"
    unfolding a(2) unfolding t py_slice_nat using lk lv by simp_all
  have s2: "py_slice (keys y) 0 (t - 1) = take n (keys y)"
    "py_slice (vals y) 0 (t - 1) = take n (vals y)"
    unfolding a(1) unfolding a(4) py_slice_nat by simp_all
  have s3: "\<not> leaf y \<Longrightarrow> py_slice (child y) t (2 * t) = drop (Suc n) (child y)"
    unfolding a(3) unfolding t py_slice_nat using lc by simp
  have s4: "py_slice (child y) 0 t = take (Suc n) (child y)"
    unfolding t unfolding a(4) py_slice_nat by simp
  have ix: "py_index (keys y) (t - 1) = Some n" "py_index (vals y) (t - 1) = Some n"
    unfolding a(1) using lk lv by (simp_all add: py_index_nat)
  have nth: "py_nth (child x) i = Some y" using i y by (simp add: py_nth_def)
  show ?thesis
    unfolding split_child_def nth ix option.case Let_def s1 s2 s4
    using s3 insert_then_update[OF i] by (auto simp: py_insert_def)
qed

lemma interleave_insert:
  "length Cs = Suc (length es) \<Longrightarrow> i \<le> length es \<Longrightarrow> Cs ! i = Y @ m # Z \<Longrightarrow>
   interleave (take i Cs @ Y # Z # drop (Suc i) Cs) (take i es @ m # drop i es)
     = interleave Cs es"
proof (induction i arbitrary: Cs es)
  case 0
  then obtain c Cs' where cs: "Cs = c # Cs'" "length Cs' = length es" by (cases Cs) auto
  have 1: "interleave (Z # Cs') es = Z @ post es Cs'"
    using interleave_post[of "Z # Cs'" es] cs(2) by simp
  have 2: "interleave (c # Cs') es = c @ post es Cs'"
    using interleave_post[of "c # Cs'" es] cs(2) by simp
  show ?case using 0(3) cs 1 2 by simp
next
  case (Suc i)
  then obtain e es' where es: "es = e # es'" by (cases es) auto
  with Suc obtain c Cs' where cs: "Cs = c # Cs'" by (cases Cs) auto
  have "length Cs' = Suc (length es')" "i \<le> length es'" "Cs' ! i = Y @ m # Z"
    using Suc.prems es cs by auto
  from Suc.IH[OF this] show ?case using es cs by simp
qed

lemma interleave_split:
  "length cs = Suc (length es) \<Longrightarrow> j < length es \<Longrightarrow>
   interleave cs es
     = interleave (take (Suc j) cs) (take j es) @ es ! j # interleave (drop (Suc j) cs) (drop (Suc j) es)"
proof (induction j arbitrary: cs es)
  case 0
  then obtain e es' where es: "es = e # es'" by (cases es) auto
  with 0 obtain c cs' where cs: "cs = c # cs'" by (cases cs) auto
  show ?case using es cs by simp
next
  case (Suc j)
  then obtain e es' where es: "es = e # es'" by (cases es) auto
  with Suc obtain c cs' where cs: "cs = c # cs'" by (cases cs) auto
  have "length cs' = Suc (length es')" "j < length es'" using Suc.prems es cs by auto
  from Suc.IH[OF this] show ?case using es cs by simp
qed

lemma split_child_correct:
  assumes wf: "wf x" and inner: "\<not> leaf x" and i: "i < length (child x)"
    and full: "int (length (keys (child x ! i))) = 2 * t - 1"
  shows "\<exists>x'. split_child t x i = Some x' \<and> wf x' \<and> \<not> leaf x' \<and> inorder x' = inorder x
           \<and> keys x' = take i (keys x) @ keys (child x ! i) ! nat (t - 1) # drop i (keys x)
           \<and> (kids_bounded t x \<longrightarrow> kids_bounded t x')
           \<and> int (length (keys (child x' ! i))) = t - 1
           \<and> int (length (keys (child x' ! Suc i))) = t - 1"
proof -
  let ?y = "child x ! i"
  from full_degree[OF full] obtain n where n: "t = int (Suc n)" "length (keys ?y) = 2 * n + 1"
    by blast
  have wy: "wf ?y" using wf_child[OF wf inner] i by simp
  have lv: "length (vals ?y) = 2 * n + 1" using wf_len[OF wy] n(2) by simp
  have lc: "\<not> leaf ?y \<longrightarrow> length (child ?y) = 2 * n + 2" using wf_inner[OF wy] n(2) by simp
  define y' where "y' = Node (leaf ?y) (take n (keys ?y)) (take n (vals ?y))
               (if leaf ?y then child ?y else take (Suc n) (child ?y))"
  define z where "z = Node (leaf ?y) (drop (Suc n) (keys ?y)) (drop (Suc n) (vals ?y))
              (if leaf ?y then [] else drop (Suc n) (child ?y))"
  let ?y' = y' and ?z = z
  let ?m = "(keys ?y ! n, vals ?y ! n)"
  let ?x' = "Node (leaf x) (take i (keys x) @ keys ?y ! n # drop i (keys x))
               (take i (vals x) @ vals ?y ! n # drop i (vals x))
               (take i (child x) @ ?y' # ?z # drop (Suc i) (child x))"
  have res: "split_child t x i = Some ?x'"
    unfolding y'_def z_def by (rule split_child_eq[OF i refl n(1,2) lv lc])
  have len: "length (vals x) = length (keys x)" by (rule wf_len[OF wf])
  have lcs: "length (child x) = Suc (length (keys x))" by (rule wf_inner[OF wf inner])
  have ile: "i \<le> length (keys x)" using i lcs by simp
  have wy': "wf ?y'"
  proof (cases "leaf ?y")
    case True
    then show ?thesis using lv n(2) wf_leaf[OF wy] by (simp add: y'_def)
  next
    case False
    have "\<forall>c \<in> set (take (Suc n) (child ?y)). wf c"
      using wf_child[OF wy False] by (auto dest: in_set_takeD)
    then show ?thesis using False lv n(2) lc by (simp add: y'_def)
  qed
  have wz: "wf ?z"
  proof (cases "leaf ?y")
    case True
    then show ?thesis using lv n(2) by (simp add: z_def)
  next
    case False
    have "\<forall>c \<in> set (drop (Suc n) (child ?y)). wf c"
      using wf_child[OF wy False] by (auto dest: in_set_dropD)
    then show ?thesis using False lv n(2) lc by (simp add: z_def)
  qed
  have "\<forall>c \<in> set (take i (child x) @ ?y' # ?z # drop (Suc i) (child x)). wf c"
    using wf_child[OF wf inner] wy' wz by (auto dest: in_set_takeD in_set_dropD)
  then have wx': "wf ?x'" using inner len lcs i ile by simp
  have yio: "inorder ?y = inorder ?y' @ ?m # inorder ?z"
  proof (cases "leaf ?y")
    case True
    let ?es = "zip (keys ?y) (vals ?y)"
    have "n < length ?es" using n(2) lv by simp
    from id_take_nth_drop[OF this] have "?es = take n ?es @ ?m # drop (Suc n) ?es"
      using n(2) lv by simp
    then show ?thesis using True by (simp add: inorder_sel take_zip drop_zip y'_def z_def)
  next
    case False
    let ?es = "zip (keys ?y) (vals ?y)"
    let ?cs = "map inorder (child ?y)"
    have l: "length ?cs = Suc (length ?es)" using lc False n(2) lv by simp
    have j: "n < length ?es" using n(2) lv by simp
    have "inorder ?y = interleave ?cs ?es" using False by (simp add: inorder_sel)
    also have "\<dots> = interleave (take (Suc n) ?cs) (take n ?es)
                       @ ?es ! n # interleave (drop (Suc n) ?cs) (drop (Suc n) ?es)"
      by (rule interleave_split[OF l j])
    also have "?es ! n = ?m" using n(2) lv by simp
    finally show ?thesis using False by (simp add: take_zip drop_zip take_map drop_map y'_def z_def)
  qed
  have xio: "inorder ?x' = inorder x"
  proof -
    let ?es = "zip (keys x) (vals x)"
    let ?Cs = "map inorder (child x)"
    have l: "length ?Cs = Suc (length ?es)" using lcs len by simp
    have ie: "i \<le> length ?es" using ile len by simp
    have ci: "?Cs ! i = inorder ?y' @ ?m # inorder ?z" using yio i by simp
    have z: "zip (take i (keys x) @ keys ?y ! n # drop i (keys x))
                 (take i (vals x) @ vals ?y ! n # drop i (vals x))
               = take i ?es @ ?m # drop i ?es"
      using len by (simp add: zip_append take_zip drop_zip)
    have "inorder ?x' = interleave (take i ?Cs @ inorder ?y' # inorder ?z # drop (Suc i) ?Cs)
                          (take i ?es @ ?m # drop i ?es)"
      using inner z by (simp add: take_map drop_map)
    also have "\<dots> = interleave ?Cs ?es" by (rule interleave_insert[OF l ie ci])
    finally show ?thesis using inner by (simp add: inorder_sel)
  qed
  have kx: "keys ?x' = take i (keys x) @ keys ?y ! nat (t - 1) # drop i (keys x)"
    using n(1) by simp
  have li: "length (take i (child x)) = i" using i by simp
  have ci: "child ?x' ! i = y'" using li by (simp add: nth_append)
  have csi: "child ?x' ! Suc i = z" using li by (simp add: nth_append)
  have ky': "int (length (keys y')) = t - 1" using n by (simp add: y'_def)
  have kz: "int (length (keys z)) = t - 1" using n by (simp add: z_def)
  have kb: "kids_bounded t ?x'" if kbx: "kids_bounded t x"
  proof -
    have bdy: "bounded t ?y" using kbx i by (simp add: kids_bounded_def)
    then have kby: "\<forall>c \<in> set (child ?y). bounded t c"
      unfolding bounded_iff[of t "child x ! i"] kids_bounded_def by simp
    have kb1: "kids_bounded t y'" unfolding kids_bounded_def y'_def
      using kby by (auto dest: in_set_takeD)
    have 1: "bounded t y'" unfolding bounded_iff[of t y'] using kb1 ky' n(1) by simp
    have kb2: "kids_bounded t z" unfolding kids_bounded_def z_def
      using kby by (auto dest: in_set_dropD)
    have 2: "bounded t z" unfolding bounded_iff[of t z] using kb2 kz n(1) by simp
    show ?thesis unfolding kids_bounded_def
      using kbx[unfolded kids_bounded_def] 1 2 by (auto dest: in_set_takeD in_set_dropD)
  qed
  show ?thesis
    using res wx' inner xio kx kb ci csi ky' kz
    by (intro exI[of _ ?x']) (simp del: wf.simps inorder.simps)
qed

lemma scan_down_pos:
  assumes srt: "sorted_wrt (<) ks" and nin: "k \<notin> set ks"
  shows "\<forall>j<scan_down k ks. ks ! j < k"
    and "scan_down k ks < length ks \<longrightarrow> k < ks ! scan_down k ks"
proof -
  let ?p = "scan_down k ks"
  show "\<forall>j<?p. ks ! j < k"
  proof (intro allI impI)
    fix j assume j: "j < ?p"
    then have pos: "0 < ?p" by simp
    have ple: "?p \<le> length ks" by (rule scan_down_le)
    have "ks ! (?p - 1) \<in> set ks" using pos ple by simp
    then have "ks ! (?p - 1) \<noteq> k" using nin by auto
    then have last: "ks ! (?p - 1) < k" using scan_down_left[OF pos] by simp
    show "ks ! j < k"
    proof (cases "j = ?p - 1")
      case True
      then show ?thesis using last by simp
    next
      case False
      then have "j < ?p - 1" using j by simp
      then have "ks ! j < ks ! (?p - 1)" using srt pos ple by (simp add: sorted_wrt_nth_less)
      then show ?thesis using last by simp
    qed
  qed
  show "?p < length ks \<longrightarrow> k < ks ! ?p"
  proof
    assume "?p < length ks"
    then have "ks ! ?p \<in> set (drop ?p ks)"
      by (metis Cons_nth_drop_Suc list.set_intros(1))
    then show "k < ks ! ?p" by (rule scan_down_right)
  qed
qed

lemma keys_subset_inorder:
  assumes "wf x"
  shows "set (keys x) \<subseteq> fst ` set (inorder x)"
proof -
  have len: "length (vals x) = length (keys x)" by (rule wf_len[OF assms])
  have k: "fst ` set (zip (keys x) (vals x)) = set (keys x)"
    using len by (metis map_fst_zip set_map)
  show ?thesis
  proof (cases "leaf x")
    case True
    then show ?thesis using k by (simp add: inorder_sel)
  next
    case False
    have "length (map inorder (child x)) = Suc (length (zip (keys x) (vals x)))"
      using wf_inner[OF assms False] len by simp
    from image_mono[OF set_interleave_es[OF this], of fst] show ?thesis
      using k False by (simp add: inorder_sel)
  qed
qed

lemma leaf_insert_rel:
  assumes wf: "wf x" and lf: "leaf x" and srt: "ssorted (inorder x)"
    and nin: "k \<notin> fst ` set (inorder x)"
  shows "upd_rel x (Node (leaf x) (py_insert (keys x) (scan_down k (keys x)) k)
                      (py_insert (vals x) (scan_down k (keys x)) v) (child x)) k v"
proof -
  let ?p = "scan_down k (keys x)"
  let ?es = "zip (keys x) (vals x)"
  let ?x' = "Node (leaf x) (py_insert (keys x) ?p k) (py_insert (vals x) ?p v) (child x)"
  have len: "length (vals x) = length (keys x)" by (rule wf_len[OF wf])
  have io: "inorder x = ?es" using lf by (simp add: inorder_sel)
  have ks: "map fst ?es = keys x" using len by simp
  have ksrt: "sorted_wrt (<) (keys x)" by (rule keys_sorted[OF wf srt])
  have knin: "k \<notin> set (keys x)" using nin keys_subset_inorder[OF wf] by auto
  have ple: "?p \<le> length (keys x)" by (rule scan_down_le)
  have io': "inorder ?x' = take ?p ?es @ (k, v) # drop ?p ?es"
    using lf len ple by (simp add: py_insert_def zip_append take_zip drop_zip)
  have split: "inorder x = take ?p ?es @ drop ?p ?es" using io by simp
  have tk: "map fst (take ?p ?es) = take ?p (keys x)" using ks by (simp add: take_map[symmetric])
  have dk: "map fst (drop ?p ?es) = drop ?p (keys x)" using ks by (simp add: drop_map[symmetric])
  have left: "\<forall>a \<in> set (take ?p ?es). fst a < k"
  proof
    fix a assume "a \<in> set (take ?p ?es)"
    then have "fst a \<in> set (take ?p (keys x))" using tk by (metis image_eqI set_map)
    then obtain j where "j < ?p" "fst a = keys x ! j"
      using ple by (auto simp: in_set_conv_nth)
    then show "fst a < k" using scan_down_pos(1)[OF ksrt knin] by simp
  qed
  have right: "\<forall>b \<in> set (drop ?p ?es). k < fst b"
  proof
    fix b assume "b \<in> set (drop ?p ?es)"
    then have "fst b \<in> set (drop ?p (keys x))" using dk by (metis image_eqI set_map)
    then show "k < fst b" by (rule scan_down_right)
  qed
  have 1: "wf ?x'" using lf len wf_leaf[OF wf lf] by (simp add: py_insert_def)
  have srt': "ssorted (take ?p ?es @ drop ?p ?es)" using srt io by simp
  have 2: "ssorted (inorder ?x')"
    unfolding io' ssorted_append ssorted_Cons
    using srt'[unfolded ssorted_append] left right by auto
  have 3: "fst ` set (inorder ?x') = insert k (fst ` set (inorder x))"
  proof -
    have "set (inorder x) = set (take ?p ?es) \<union> set (drop ?p ?es)"
      unfolding io by (metis append_take_drop_id set_append)
    then show ?thesis unfolding io' by (auto simp: image_Un)
  qed
  have ne: "\<forall>a \<in> set (take ?p ?es). fst a \<noteq> k" using left by auto
  have 4: "map_of (inorder ?x') = (map_of (inorder x))(k \<mapsto> v)"
    unfolding io' by (subst split) (rule map_of_insert_mid[OF ne])
  show ?thesis unfolding upd_rel_def by (intro conjI 1 2 3 4)
qed

lemma pos_after_split:
  fixes k :: "'k::linorder"
  assumes p: "p \<le> length ks" and lt: "\<forall>j<p. ks ! j < k"
    and gt: "p < length ks \<longrightarrow> k < ks ! p" and mk: "m \<noteq> k"
  shows "(if m < k then p + 1 else p) \<le> length (take p ks @ m # drop p ks)"
    and "\<forall>j<(if m < k then p + 1 else p). (take p ks @ m # drop p ks) ! j < k"
    and "(if m < k then p + 1 else p) < length (take p ks @ m # drop p ks)
           \<longrightarrow> k < (take p ks @ m # drop p ks) ! (if m < k then p + 1 else p)"
proof -
  let ?ks' = "take p ks @ m # drop p ks"
  have lp: "length (take p ks) = p" using p by simp
  have at_lt: "?ks' ! j = ks ! j" if "j < p" for j using that lp by (simp add: nth_append)
  have at_p: "?ks' ! p = m" using lp by (simp add: nth_append)
  have at_sp: "?ks' ! Suc p = ks ! p" if "p < length ks" using that lp by (simp add: nth_append)
  show "(if m < k then p + 1 else p) \<le> length ?ks'" using p by simp
  show "\<forall>j<(if m < k then p + 1 else p). ?ks' ! j < k"
  proof (intro allI impI)
    fix j assume j: "j < (if m < k then p + 1 else p)"
    show "?ks' ! j < k"
    proof (cases "j < p")
      case True
      then show ?thesis using at_lt lt by simp
    next
      case False
      then have "j = p" "m < k" using j by (auto split: if_splits)
      then show ?thesis using at_p by simp
    qed
  qed
  show "(if m < k then p + 1 else p) < length ?ks'
          \<longrightarrow> k < ?ks' ! (if m < k then p + 1 else p)"
  proof (cases "m < k")
    case True
    show ?thesis
    proof
      assume "(if m < k then p + 1 else p) < length ?ks'"
      then have "p < length ks" using True p by simp
      then show "k < ?ks' ! (if m < k then p + 1 else p)" using True at_sp gt by simp
    qed
  next
    case False
    then have "k < m" using mk by auto
    then show ?thesis using False at_p by simp
  qed
qed

lemma upd_rel_cong: "inorder x1 = inorder x2 \<Longrightarrow> upd_rel x1 x' k v \<Longrightarrow> upd_rel x2 x' k v"
  by (simp add: upd_rel_def)

lemma grow_ok_child:
  assumes kb: "kids_bounded t x" and i: "i < length (child x)"
    and nf: "int (length (keys (child x ! i))) \<noteq> 2 * t - 1"
    and g: "grow_ok t (child x ! i) c'"
  shows "bounded t c'"
proof -
  let ?c = "child x ! i"
  have "bounded t ?c" using kb i by (simp add: kids_bounded_def)
  then have b: "t - 1 \<le> int (length (keys ?c))" "int (length (keys ?c)) \<le> 2 * t - 1"
    "kids_bounded t ?c"
    unfolding bounded_iff[of t ?c] by simp_all
  then have "int (length (keys ?c)) < 2 * t - 1" using nf by simp
  with g b(3) have "kids_bounded t c'" "length (keys ?c) \<le> length (keys c')"
    "int (length (keys c')) \<le> 2 * t - 1"
    by (simp_all add: grow_ok_def)
  then show ?thesis unfolding bounded_iff[of t c'] using b(1) by simp
qed

theorem insert_non_full_correct:
  "wf x \<Longrightarrow> ssorted (inorder x) \<Longrightarrow> k \<notin> fst ` set (inorder x) \<Longrightarrow>
   \<exists>x'. insert_non_full t x k v = Some x' \<and> upd_rel x x' k v \<and> grow_ok t x x'"
proof (induction t x k v rule: insert_non_full.induct)
  case (1 t x k v)
  note wf = "1.prems"(1) and srt = "1.prems"(2) and nin = "1.prems"(3)
  let ?p = "scan_down k (keys x)"
  have len: "length (vals x) = length (keys x)" by (rule wf_len[OF wf])
  show ?case
  proof (cases "leaf x")
    case True
    have "insert_non_full t x k v
            = Some (Node (leaf x) (py_insert (keys x) ?p k) (py_insert (vals x) ?p v) (child x))"
      using True len by (subst insert_non_full.simps) (simp add: Let_def)
    moreover have "grow_ok t x (Node (leaf x) (py_insert (keys x) ?p k)
                                   (py_insert (vals x) ?p v) (child x))"
      using scan_down_le[of k "keys x"]
      by (auto simp: grow_ok_def kids_bounded_def py_insert_def min_def)
    ultimately show ?thesis using leaf_insert_rel[OF wf True srt nin] by blast
  next
    case False
    have ksrt: "sorted_wrt (<) (keys x)" by (rule keys_sorted[OF wf srt])
    have knin: "k \<notin> set (keys x)" using nin keys_subset_inorder[OF wf] by auto
    have lt: "\<forall>j<?p. keys x ! j < k" by (rule scan_down_pos(1)[OF ksrt knin])
    have gt: "?p < length (keys x) \<longrightarrow> k < keys x ! ?p" by (rule scan_down_pos(2)[OF ksrt knin])
    have ple: "?p \<le> length (keys x)" by (rule scan_down_le)
    have ics: "?p < length (child x)" using wf_inner[OF wf False] ple by simp
    let ?y = "child x ! ?p"
    have nth: "py_nth (child x) ?p = Some ?y" using ics by (simp add: py_nth_def)
    show ?thesis
    proof (cases "int (length (keys ?y)) = 2 * t - 1")
      case full: True
      from split_child_correct[OF wf False ics full] obtain x' where
        x': "split_child t x ?p = Some x'" "wf x'" "\<not> leaf x'" "inorder x' = inorder x"
          "keys x' = take ?p (keys x) @ keys ?y ! nat (t - 1) # drop ?p (keys x)"
          "kids_bounded t x \<longrightarrow> kids_bounded t x'"
          "int (length (keys (child x' ! ?p))) = t - 1"
          "int (length (keys (child x' ! Suc ?p))) = t - 1"
        by blast
      let ?m = "keys ?y ! nat (t - 1)"
      let ?i = "if keys x' ! ?p < k then ?p + 1 else ?p"
      have mp: "keys x' ! ?p = ?m" using x'(5) ple by (simp add: nth_append)
      have "?m \<in> set (keys x')" using x'(5) by simp
      then have "?m \<in> fst ` set (inorder x)" using keys_subset_inorder[OF x'(2)] x'(4) by auto
      then have mk: "?m \<noteq> k" using nin by metis
      have srt': "ssorted (inorder x')" using srt x'(4) by simp
      have nin': "k \<notin> fst ` set (inorder x')" using nin x'(4) by simp
      note ps = pos_after_split[OF ple lt gt mk, folded x'(5)]
      have i_eq: "?i = (if ?m < k then ?p + 1 else ?p)" unfolding mp ..
      have i_le: "?i \<le> length (keys x')" unfolding i_eq by (rule ps(1))
      have lt': "\<forall>j<?i. keys x' ! j < k" unfolding i_eq by (rule ps(2))
      have gt': "?i < length (keys x') \<longrightarrow> k < keys x' ! ?i" unfolding i_eq by (rule ps(3))
      have ics': "?i < length (child x')" using wf_inner[OF x'(2,3)] i_le by simp
      let ?c = "child x' ! ?i"
      have nth': "py_nth (child x') ?i = Some ?c" using ics' by (simp add: py_nth_def)
      have cinv: "wf ?c" "ssorted (inorder ?c)"
        using child_inv[OF x'(2,3) srt' ics'] by simp_all
      have cnin: "k \<notin> fst ` set (inorder ?c)"
        using descend_mem[OF x'(2,3) srt' i_le lt' gt'] nin' by simp
      from "1.IH"(1)[OF refl False nth full x'(1) refl nth' cinv cnin] obtain c' where
        c': "insert_non_full t ?c k v = Some c'" "upd_rel ?c c' k v" "grow_ok t ?c c'"
        by blast
      let ?r = "Node (leaf x') (keys x') (vals x') ((child x')[?i := c'])"
      have res: "insert_non_full t x k v = Some ?r"
        using False nth full x'(1) nth' c'(1)
        by (subst insert_non_full.simps) (simp add: Let_def)
      have "upd_rel x' ?r k v"
        by (rule lift_child_update[OF x'(2,3) srt' i_le lt' gt' c'(2)])
      then have rel: "upd_rel x ?r k v" using upd_rel_cong[OF x'(4)] by blast
      have "grow_ok t x ?r" unfolding grow_ok_def
      proof (intro impI)
        assume kb: "kids_bounded t x" and nf: "int (length (keys x)) < 2 * t - 1"
        have kb': "kids_bounded t x'" using x'(6) kb by simp
        have ck: "int (length (keys ?c)) = t - 1" using x'(7,8) by (simp split: if_splits)
        have "1 \<le> t" using full by linarith
        then have cnf: "int (length (keys ?c)) \<noteq> 2 * t - 1" using ck by linarith
        have "bounded t c'" by (rule grow_ok_child[OF kb' ics' cnf c'(3)])
        then have "kids_bounded t ?r" by (rule kids_bounded_update[OF kb'])
        moreover have "length (keys x') = Suc (length (keys x))" using x'(5) ple by simp
        ultimately show "kids_bounded t ?r \<and> length (keys x) \<le> length (keys ?r)
                           \<and> int (length (keys ?r)) \<le> 2 * t - 1"
          using nf by simp
      qed
      then show ?thesis using res rel by blast
    next
      case nonfull: False
      have cinv: "wf ?y" "ssorted (inorder ?y)"
        using child_inv[OF wf False srt ics] by simp_all
      have cnin: "k \<notin> fst ` set (inorder ?y)"
        using descend_mem[OF wf False srt ple lt gt] nin by simp
      from "1.IH"(2)[OF refl False nth nonfull cinv cnin] obtain y' where
        y': "insert_non_full t ?y k v = Some y'" "upd_rel ?y y' k v" "grow_ok t ?y y'"
        by blast
      let ?r = "Node (leaf x) (keys x) (vals x) ((child x)[?p := y'])"
      have res: "insert_non_full t x k v = Some ?r"
        using False nth nonfull y'(1)
        by (subst insert_non_full.simps) (simp add: Let_def)
      have rel: "upd_rel x ?r k v"
        by (rule lift_child_update[OF wf False srt ple lt gt y'(2)])
      have "grow_ok t x ?r" unfolding grow_ok_def
      proof (intro impI)
        assume kb: "kids_bounded t x" and nf: "int (length (keys x)) < 2 * t - 1"
        have "bounded t y'" by (rule grow_ok_child[OF kb ics nonfull y'(3)])
        then have "kids_bounded t ?r" by (rule kids_bounded_update[OF kb])
        then show "kids_bounded t ?r \<and> length (keys x) \<le> length (keys ?r)
                     \<and> int (length (keys ?r)) \<le> 2 * t - 1"
          using nf by simp
      qed
      then show ?thesis using res rel by blast
    qed
  qed
qed

lemma update_node_shape:
  "update_node x k v = Some (x', b) \<Longrightarrow>
   keys x' = keys x \<and> (kids_bounded t x \<longrightarrow> kids_bounded t x')"
proof (induction x k v arbitrary: x' b rule: update_node.induct)
  case (1 x k v)
  let ?i = "scan_up k (keys x)"
  show ?case
  proof (cases "?i < length (keys x) \<and> k = keys x ! ?i")
    case True
    then have "x' = Node (leaf x) (keys x) ((vals x)[?i := v]) (child x)"
      using "1.prems" by (subst (asm) update_node.simps) (simp add: Let_def split: if_splits)
    then show ?thesis by (simp add: kids_bounded_def)
  next
    case nf: False
    show ?thesis
    proof (cases "leaf x")
      case True
      then have "x' = x"
        using "1.prems" nf by (subst (asm) update_node.simps) (auto simp: Let_def)
      then show ?thesis by simp
    next
      case False
      from "1.prems" nf False obtain c c' where
        c: "py_nth (child x) ?i = Some c" "update_node c k v = Some (c', b)"
          "x' = Node (leaf x) (keys x) (vals x) ((child x)[?i := c'])"
        by (subst (asm) update_node.simps) (auto simp: Let_def split: option.splits)
      from "1.IH"[OF refl nf False c(1,2)] have ih:
        "keys c' = keys c" "kids_bounded t c \<longrightarrow> kids_bounded t c'"
        by simp_all
      have ci: "?i < length (child x)" "c = child x ! ?i"
        using c(1) by (auto simp: py_nth_def split: if_splits)
      have "kids_bounded t x'" if kb: "kids_bounded t x"
      proof -
        have "bounded t c" using kb ci by (simp add: kids_bounded_def)
        then have "bounded t c'" unfolding bounded_iff[of t c] bounded_iff[of t c'] using ih by simp
        then show ?thesis unfolding c(3) by (rule kids_bounded_update[OF kb])
      qed
      then show ?thesis using c(3) by simp
    qed
  qed
qed

subsection \<open>The tree\<close>

lemma search_contents: "tree_inv bt \<Longrightarrow> search bt k = Some (contents bt k)"
  by (simp add: tree_inv_def search_def contents_def search_node_correct)

lemma items_inorder: "tree_inv bt \<Longrightarrow> items bt = Some (inorder (root bt))"
  by (simp add: tree_inv_def items_def items_node_correct)

theorem insert_bt_correct:
  assumes inv: "tree_inv bt"
  shows "\<exists>bt'. insert_bt bt k v w = Some bt' \<and> tree_inv bt'
           \<and> contents bt' = (contents bt)(k \<mapsto> v)
           \<and> fst ` set (inorder (root bt')) = insert k (fst ` set (inorder (root bt)))
           \<and> deg bt' = deg bt
           \<and> wal bt' = (if w then wal bt @ [(''insert'', k, v)] else wal bt)
           \<and> (2 \<le> deg bt \<longrightarrow> root_bounded bt \<longrightarrow> root_bounded bt')"
proof -
  define bt1 where "bt1 = (if w then bt\<lparr>wal := wal_write (wal bt) ''insert'' k v\<rparr> else bt)"
  let ?t = "deg bt" and ?r = "root bt"
  have b1: "root bt1 = ?r" "deg bt1 = ?t"
    "wal bt1 = (if w then wal bt @ [(''insert'', k, v)] else wal bt)"
    by (simp_all add: bt1_def wal_write_def)
  have wf: "wf ?r" and srt: "ssorted (inorder ?r)" using inv by (simp_all add: tree_inv_def)
  have s: "search bt1 k = Some (map_of (inorder ?r) k)"
    using search_node_correct[OF wf srt] b1 by (simp add: search_def)
  have fin: "\<exists>bt'. insert_bt bt k v w = Some bt' \<and> tree_inv bt'
           \<and> contents bt' = (contents bt)(k \<mapsto> v)
           \<and> fst ` set (inorder (root bt')) = insert k (fst ` set (inorder (root bt)))
           \<and> deg bt' = deg bt
           \<and> wal bt' = (if w then wal bt @ [(''insert'', k, v)] else wal bt)
           \<and> (2 \<le> deg bt \<longrightarrow> root_bounded bt \<longrightarrow> root_bounded bt')"
    if res: "insert_bt bt k v w = Some (bt1\<lparr>root := r\<rparr>)" and rel: "upd_rel ?r r k v"
      and bnd: "2 \<le> ?t \<Longrightarrow> root_bounded bt \<Longrightarrow>
                  int (length (keys r)) \<le> 2 * ?t - 1 \<and> kids_bounded ?t r" for r
  proof -
    let ?bt' = "bt1\<lparr>root := r\<rparr>"
    have "tree_inv ?bt'" using rel by (simp add: tree_inv_def upd_rel_def)
    moreover have "contents ?bt' = (contents bt)(k \<mapsto> v)"
      using rel by (simp add: contents_def upd_rel_def)
    moreover have "fst ` set (inorder (root ?bt')) = insert k (fst ` set (inorder ?r))"
      using rel by (simp add: upd_rel_def)
    moreover have "2 \<le> ?t \<longrightarrow> root_bounded bt \<longrightarrow> root_bounded ?bt'"
      using bnd b1 by (simp add: root_bounded_def)
    ultimately show ?thesis using res b1 by (intro exI[of _ ?bt']) simp
  qed
  show ?thesis
  proof (cases "map_of (inorder ?r) k")
    case (Some old)
    then have mem: "k \<in> fst ` set (inorder ?r)"
      by (metis map_of_eq_None_iff option.distinct(1))
    from update_node_correct[OF wf srt mem, of v] obtain x' where
      x': "update_node ?r k v = Some (x', True)" "upd_rel ?r x' k v"
      by blast
    have res: "insert_bt bt k v w = Some (bt1\<lparr>root := x'\<rparr>)"
      using s Some x'(1) b1 unfolding insert_bt_def bt1_def[symmetric] by (simp add: Let_def)
    have "int (length (keys x')) \<le> 2 * ?t - 1 \<and> kids_bounded ?t x'" if "root_bounded bt"
      using update_node_shape[OF x'(1), of ?t] that by (simp add: root_bounded_def)
    then show ?thesis using fin[OF res x'(2)] by blast
  next
    case None
    then have nin: "k \<notin> fst ` set (inorder ?r)" by (simp add: map_of_eq_None_iff)
    show ?thesis
    proof (cases "int (length (keys ?r)) = 2 * ?t - 1")
      case full: True
      let ?temp = "Node False [] [] [?r]"
      have wt: "wf ?temp" using wf by simp
      have it: "\<not> leaf ?temp" "0 < length (child ?temp)" by simp_all
      have ft: "int (length (keys (child ?temp ! 0))) = 2 * ?t - 1" using full by simp
      from split_child_correct[OF wt it ft] obtain temp where
        t': "split_child ?t ?temp 0 = Some temp" "wf temp" "\<not> leaf temp"
          "inorder temp = inorder ?temp"
          "keys temp = take 0 (keys ?temp) @ keys (child ?temp ! 0) ! nat (?t - 1) # drop 0 (keys ?temp)"
          "kids_bounded ?t ?temp \<longrightarrow> kids_bounded ?t temp"
        by blast
      have io: "inorder temp = inorder ?r" using t'(4) by simp
      have srt': "ssorted (inorder temp)" using srt io by simp
      have nin': "k \<notin> fst ` set (inorder temp)" using nin io by simp
      from insert_non_full_correct[OF t'(2) srt' nin', of ?t v] obtain r where
        r: "insert_non_full ?t temp k v = Some r" "upd_rel temp r k v" "grow_ok ?t temp r"
        by blast
      have res: "insert_bt bt k v w = Some (bt1\<lparr>root := r\<rparr>)"
        using s None full t'(1) r(1) b1 unfolding insert_bt_def bt1_def[symmetric]
        by (simp add: Let_def)
      have rel: "upd_rel ?r r k v" by (rule upd_rel_cong[OF io r(2)])
      have "int (length (keys r)) \<le> 2 * ?t - 1 \<and> kids_bounded ?t r"
        if t2: "2 \<le> ?t" and rb: "root_bounded bt"
      proof -
        have "bounded ?t ?r" unfolding bounded_iff[of ?t ?r]
          using rb full t2 by (simp add: root_bounded_def)
        then have "kids_bounded ?t ?temp" by (simp add: kids_bounded_def)
        then have kb: "kids_bounded ?t temp" using t'(6) by simp
        have "length (keys temp) = 1" using t'(5) by simp
        then have "int (length (keys temp)) < 2 * ?t - 1" using t2 by simp
        then show ?thesis using r(3) kb by (simp add: grow_ok_def)
      qed
      then show ?thesis using fin[OF res rel] by blast
    next
      case nonfull: False
      from insert_non_full_correct[OF wf srt nin, of ?t v] obtain r where
        r: "insert_non_full ?t ?r k v = Some r" "upd_rel ?r r k v" "grow_ok ?t ?r r"
        by blast
      have res: "insert_bt bt k v w = Some (bt1\<lparr>root := r\<rparr>)"
        using s None nonfull r(1) b1 unfolding insert_bt_def bt1_def[symmetric]
        by (simp add: Let_def)
      have "int (length (keys r)) \<le> 2 * ?t - 1 \<and> kids_bounded ?t r" if rb: "root_bounded bt"
        using r(3) rb nonfull by (simp add: grow_ok_def root_bounded_def)
      then show ?thesis using fin[OF res r(2)] by blast
    qed
  qed
qed
subsection \<open>Logs, recovery and sequences of inserts\<close>

lemma apply_log_append: "apply_log m (es @ es') = apply_log (apply_log m es) es'"
  by (induction es arbitrary: m) auto

lemma apply_log_inserts:
  "apply_log m (insert_entries kvs) k
     = (case last_inserted kvs k of Some v \<Rightarrow> Some v | None \<Rightarrow> m k)"
proof (induction kvs arbitrary: m)
  case Nil
  then show ?case by (simp add: insert_entries_def last_inserted_def)
next
  case (Cons kv kvs)
  obtain k' v' where kv: "kv = (k', v')" by (cases kv)
  have "apply_log m (insert_entries (kv # kvs)) k = apply_log (m(k' \<mapsto> v')) (insert_entries kvs) k"
    using kv by (simp add: insert_entries_def)
  also have "\<dots> = (case last_inserted kvs k of Some v \<Rightarrow> Some v | None \<Rightarrow> (m(k' \<mapsto> v')) k)"
    by (rule Cons.IH)
  also have "\<dots> = (case last_inserted (kv # kvs) k of Some v \<Rightarrow> Some v | None \<Rightarrow> m k)"
    using kv by (auto simp: last_inserted_def map_add_def split: option.splits)
  finally show ?case .
qed

lemma insert_bt_ok:
  assumes "bt_ok bt"
  shows "\<exists>bt'. insert_bt bt k v w = Some bt' \<and> bt_ok bt'
           \<and> contents bt' = (contents bt)(k \<mapsto> v)
           \<and> deg bt' = deg bt
           \<and> wal bt' = (if w then wal bt @ [(''insert'', k, v)] else wal bt)"
proof -
  from insert_bt_correct[of bt k v w] assms obtain bt' where
    "insert_bt bt k v w = Some bt'" "tree_inv bt'" "contents bt' = (contents bt)(k \<mapsto> v)"
    "deg bt' = deg bt" "wal bt' = (if w then wal bt @ [(''insert'', k, v)] else wal bt)"
    "2 \<le> deg bt \<longrightarrow> root_bounded bt \<longrightarrow> root_bounded bt'"
    unfolding bt_ok_def by blast
  then show ?thesis using assms unfolding bt_ok_def by (intro exI[of _ bt']) simp
qed

lemma replay_correct:
  "bt_ok bt \<Longrightarrow>
   \<exists>bt'. replay bt es = Some bt' \<and> bt_ok bt' \<and> contents bt' = apply_log (contents bt) es
     \<and> deg bt' = deg bt \<and> wal bt' = wal bt"
proof (induction es arbitrary: bt)
  case Nil
  then show ?case by simp
next
  case (Cons e es)
  obtain operation k v where e: "e = (operation, k, v)" by (cases e)
  show ?case
  proof (cases "operation = ''insert''")
    case True
    from insert_bt_ok[OF Cons.prems, of k v False] obtain bt1 where
      b1: "insert_bt bt k v False = Some bt1" "bt_ok bt1"
        "contents bt1 = (contents bt)(k \<mapsto> v)" "deg bt1 = deg bt" "wal bt1 = wal bt"
      by auto
    from Cons.IH[OF b1(2)] obtain bt' where
      "replay bt1 es = Some bt'" "bt_ok bt'" "contents bt' = apply_log (contents bt1) es"
      "deg bt' = deg bt1" "wal bt' = wal bt1"
      by blast
    then show ?thesis using e True b1 by (intro exI[of _ bt']) simp
  next
    case False
    from Cons.IH[OF Cons.prems] obtain bt' where
      "replay bt es = Some bt'" "bt_ok bt'" "contents bt' = apply_log (contents bt) es"
      "deg bt' = deg bt" "wal bt' = wal bt"
      by blast
    then show ?thesis using e False by (intro exI[of _ bt']) simp
  qed
qed

lemma empty_tree_ok: "bt_ok \<lparr>root = BTreeNode True, deg = t, wal = file\<rparr>"
  by (simp add: bt_ok_def tree_inv_def root_bounded_def kids_bounded_def BTreeNode_def)

lemma BTree_correct:
  "\<exists>bt. BTree t file = Some bt \<and> bt_ok bt \<and> contents bt = apply_log Map.empty file
     \<and> deg bt = t \<and> wal bt = file"
proof -
  let ?e = "\<lparr>root = BTreeNode True, deg = t, wal = file\<rparr>"
  from replay_correct[OF empty_tree_ok, of t "file" "file"] obtain bt where
    "replay ?e file = Some bt" "bt_ok bt" "contents bt = apply_log (contents ?e) file"
    "deg bt = deg ?e" "wal bt = wal ?e"
    by blast
  moreover have "contents ?e = Map.empty" by (simp add: contents_def BTreeNode_def)
  ultimately show ?thesis by (intro exI[of _ bt]) (simp add: BTree_def recover_def)
qed

lemma insert_all_correct:
  "bt_ok bt \<Longrightarrow>
   \<exists>bt'. insert_all bt kvs = Some bt' \<and> bt_ok bt'
     \<and> contents bt' = apply_log (contents bt) (insert_entries kvs)
     \<and> deg bt' = deg bt \<and> wal bt' = wal bt @ insert_entries kvs"
proof (induction kvs arbitrary: bt)
  case Nil
  then show ?case by (simp add: insert_entries_def)
next
  case (Cons kv kvs)
  obtain k v where kv: "kv = (k, v)" by (cases kv)
  from insert_bt_ok[OF Cons.prems, of k v True] obtain bt1 where
    b1: "insert_bt bt k v True = Some bt1" "bt_ok bt1"
      "contents bt1 = (contents bt)(k \<mapsto> v)" "deg bt1 = deg bt"
      "wal bt1 = wal bt @ [(''insert'', k, v)]"
    by auto
  from Cons.IH[OF b1(2)] obtain bt' where
    "insert_all bt1 kvs = Some bt'" "bt_ok bt'"
    "contents bt' = apply_log (contents bt1) (insert_entries kvs)"
    "deg bt' = deg bt1" "wal bt' = wal bt1 @ insert_entries kvs"
    by blast
  then show ?case using kv b1 by (intro exI[of _ bt']) (simp add: insert_entries_def)
qed

lemma bt_ok_search: "bt_ok bt \<Longrightarrow> search bt k = Some (contents bt k)"
  by (simp add: bt_ok_def search_contents)

lemma nodes_sel: "set (nodes x) = insert x (\<Union>c \<in> set (child x). set (nodes c))"
  by (cases x) auto

lemma bounded_nodes: "bounded t x \<Longrightarrow> n \<in> set (nodes x) \<Longrightarrow> key_count_ok t n"
proof (induction x)
  case (Node lf ks vs cs)
  from Node.prems(2) consider "n = Node lf ks vs cs" | c where "c \<in> set cs" "n \<in> set (nodes c)"
    by auto
  then show ?case
  proof cases
    case 1
    then show ?thesis using Node.prems(1) by (simp add: key_count_ok_def)
  next
    case 2
    then show ?thesis using Node.IH[of c] Node.prems(1) by simp
  qed
qed

lemma wf_nodes:
  "wf x \<Longrightarrow> ssorted (inorder x) \<Longrightarrow> n \<in> set (nodes x) \<Longrightarrow> node_shape_ok n"
proof (induction x)
  case (Node lf ks vs cs)
  let ?x = "Node lf ks vs cs"
  from Node.prems(3) consider "n = ?x" | c where "c \<in> set cs" "n \<in> set (nodes c)"
    by auto
  then show ?case
  proof cases
    case 1
    show ?thesis unfolding node_shape_ok_def 1
      using keys_sorted[OF Node.prems(1,2)] wf_len[OF Node.prems(1)] wf_leaf[OF Node.prems(1)]
      by simp
  next
    case 2
    then have inner: "\<not> leaf ?x" using wf_leaf[OF Node.prems(1)] by auto
    from 2(1) obtain i where i: "i < length (child ?x)" "c = child ?x ! i"
      by (auto simp: in_set_conv_nth)
    have "wf c \<and> ssorted (inorder c)"
      using child_inv[OF Node.prems(1) inner Node.prems(2) i(1)] i(2) by simp
    then show ?thesis using Node.IH[OF 2(1)] 2(2) by simp
  qed
qed
section \<open>Claims about the B-tree\<close>

text \<open>Claim C6 (WAL recovery). A B-tree is opened on a log file with any content and any
  minimum degree, and any sequence of \<open>insert(k, v)\<close> calls is made; none raises. A new
  \<open>BTree\<close> constructed on the log file as these calls left it is built by recovery alone,
  which leaves the file as it is (the replayed inserts do not log), and its \<open>search\<close>
  answers as the first tree's does for every key: in particular with the last value
  inserted, for every key of the sequence.\<close>

theorem wal_recovery:
  "\<exists>bt0 bt bt2. BTree t file = Some bt0 \<and> insert_all bt0 kvs = Some bt
     \<and> BTree t (wal bt) = Some bt2 \<and> wal bt2 = wal bt
     \<and> (\<forall>k. search bt2 k = search bt k)
     \<and> (\<forall>k v. last_inserted kvs k = Some v \<longrightarrow> search bt2 k = Some (Some v))"
proof -
  from BTree_correct[of t "file"] obtain bt0 where
    b0: "BTree t file = Some bt0" "bt_ok bt0" "contents bt0 = apply_log Map.empty file"
      "deg bt0 = t" "wal bt0 = file"
    by blast
  from insert_all_correct[OF b0(2), of kvs] obtain bt where
    b: "insert_all bt0 kvs = Some bt" "bt_ok bt"
      "contents bt = apply_log (contents bt0) (insert_entries kvs)"
      "wal bt = wal bt0 @ insert_entries kvs"
    by blast
  from BTree_correct[of t "wal bt"] obtain bt2 where
    b2: "BTree t (wal bt) = Some bt2" "bt_ok bt2" "contents bt2 = apply_log Map.empty (wal bt)"
      "wal bt2 = wal bt"
    by blast
  have c: "contents bt2 = contents bt"
    using b2(3) b(3,4) b0(3,5) by (simp add: apply_log_append)
  have 1: "\<forall>k. search bt2 k = search bt k"
    using bt_ok_search[OF b2(2)] bt_ok_search[OF b(2)] c by simp
  have 2: "\<forall>k v. last_inserted kvs k = Some v \<longrightarrow> search bt2 k = Some (Some v)"
    using bt_ok_search[OF b2(2)] c b(3) apply_log_inserts[of "contents bt0" kvs] by simp
  show ?thesis using b0(1) b(1) b2(1,4) 1 2 by blast
qed

theorem wal_recovery_witness:
  "\<exists>bt0 bt bt2. BTree 3 [] = Some bt0
     \<and> insert_all bt0 [(''key1'', ''value1''), (''key2'', ''value2'')] = Some bt
     \<and> BTree 3 (wal bt) = Some bt2
     \<and> search bt2 ''key1'' = Some (Some ''value1'')
     \<and> search bt2 ''key2'' = Some (Some ''value2'')"
proof -
  let ?kvs = "[(''key1'', ''value1''), (''key2'', ''value2'')]"
  have 1: "last_inserted ?kvs ''key1'' = Some ''value1''"
    and 2: "last_inserted ?kvs ''key2'' = Some ''value2''"
    by (simp_all add: last_inserted_def)
  from wal_recovery[of 3 "[]" ?kvs] obtain bt0 bt bt2 where
    "BTree 3 [] = Some bt0" "insert_all bt0 ?kvs = Some bt" "BTree 3 (wal bt) = Some bt2"
    "\<forall>k v. last_inserted ?kvs k = Some v \<longrightarrow> search bt2 k = Some (Some v)"
    by blast
  then show ?thesis using 1 2 by blast
qed

text \<open>Claim C8 (B-tree structural invariant). The tree starts empty (a fresh log) with
  minimum degree \<open>t \<ge> 2\<close>, and any sequence of \<open>insert\<close> calls is made; none raises. In
  the resulting tree every node other than the root holds between \<open>t - 1\<close> and
  \<open>2t - 1\<close> keys, and in every node the keys ascend strictly, the values list is as long
  as the keys list, and a leaf has no children.\<close>

theorem btree_structure:
  fixes kvs :: "('a::linorder \<times> 'b) list"
  assumes "2 \<le> t"
  shows "\<exists>bt0 bt. BTree t [] = Some bt0 \<and> insert_all bt0 kvs = Some bt
           \<and> (\<forall>n \<in> set (nonroot_nodes (root bt)). key_count_ok t n)
           \<and> (\<forall>n \<in> set (nodes (root bt)). node_shape_ok n)"
proof -
  from BTree_correct[of t "[] :: ('a, 'b) log_entry list"]
  obtain bt0 :: "('a, 'b) btree" where
    b0: "BTree t [] = Some bt0" "bt_ok bt0" "deg bt0 = t"
    by blast
  from insert_all_correct[OF b0(2), of kvs] obtain bt where
    b: "insert_all bt0 kvs = Some bt" "bt_ok bt" "deg bt = deg bt0"
    by blast
  have inv: "wf (root bt)" "ssorted (inorder (root bt))" "kids_bounded t (root bt)"
    using b(2,3) b0(3) assms by (simp_all add: bt_ok_def tree_inv_def root_bounded_def)
  have 1: "\<forall>n \<in> set (nonroot_nodes (root bt)). key_count_ok t n"
    using inv(3) bounded_nodes[of t] by (auto simp: nonroot_nodes_def kids_bounded_def)
  have 2: "\<forall>n \<in> set (nodes (root bt)). node_shape_ok n"
    using wf_nodes[OF inv(1,2)] by blast
  show ?thesis using b0(1) b(1) 1 2 by blast
qed

theorem btree_structure_witness:
  "(2::int) \<le> 2 \<and>
   (\<exists>bt0 bt. BTree 2 [] = Some bt0
      \<and> insert_all bt0 [(5::nat, ''e''), (3, ''c''), (8, ''h''), (1, ''a''), (9, ''i'')] = Some bt
      \<and> nonroot_nodes (root bt) = [Node True [1, 3] [''a'', ''c''] [], Node True [8, 9] [''h'', ''i''] []]
      \<and> (\<forall>n \<in> set (nonroot_nodes (root bt)). key_count_ok 2 n)
      \<and> (\<forall>n \<in> set (nodes (root bt)). node_shape_ok n))"
proof -
  let ?kvs = "[(5::nat, ''e''), (3, ''c''), (8, ''h''), (1, ''a''), (9, ''i'')]"
  have e: "BTree 2 ([] :: (nat, string) log_entry list)
             = Some \<lparr>root = BTreeNode True, deg = 2, wal = []\<rparr>"
    by (simp add: BTree_def recover_def)
  have r: "insert_all \<lparr>root = BTreeNode True, deg = 2, wal = []\<rparr> ?kvs
     = Some \<lparr>root = Node False [5] [''e'']
                       [Node True [1, 3] [''a'', ''c''] [], Node True [8, 9] [''h'', ''i''] []],
             deg = 2,
             wal = [(''insert'', 5, ''e''), (''insert'', 3, ''c''), (''insert'', 8, ''h''),
                    (''insert'', 1, ''a''), (''insert'', 9, ''i'')]\<rparr>"
    by code_simp
  from btree_structure[of 2 ?kvs] obtain bt0 bt where
    b: "BTree 2 [] = Some bt0" "insert_all bt0 ?kvs = Some bt"
      "\<forall>n \<in> set (nonroot_nodes (root bt)). key_count_ok 2 n"
      "\<forall>n \<in> set (nodes (root bt)). node_shape_ok n"
    by auto
  have "nonroot_nodes (root bt)
          = [Node True [1, 3] [''a'', ''c''] [], Node True [8, 9] [''h'', ''i''] []]"
    using b(1,2) e r by (simp add: nonroot_nodes_def)
  then show ?thesis using b by blast
qed

end
